theory Spec2Isabelle
  imports Main "HOL-Library.Word"
begin

unbundle bit_operations_syntax

section \<open>Data model of the ST7789 display chip (st7789.chip.c)\<close>

type_synonym u8 = "8 word"
type_synonym u16 = "16 word"
type_synonym u32 = "32 word"

text \<open>Host handles: \<open>pin_t\<close> and \<open>buffer_t\<close> are opaque 32-bit handles that the
  chip only stores and compares.\<close>

type_synonym pin_t = "32 word"
type_synonym buffer_t = "32 word"

datatype chip_mode_t = MODE_COMMAND | MODE_DATA

text \<open>Calls into the host, recorded in the order they are issued.
  \<open>Buffer_write off v\<close> is \<open>buffer_write(chip->framebuffer, off, &v, 4)\<close>: one whole
  32-bit colour cell at byte offset \<open>off\<close>. \<open>Log_unknown c\<close> is the warning printed
  for an opcode that \<open>execute_command\<close> does not know.\<close>

datatype host_call =
    Spi_start
  | Spi_stop
  | Buffer_write u32 u32
  | Log_unknown u8

text \<open>The struct \<open>chip_state_t\<close> (without the SPI handle and the SPI receive buffer,
  whose bytes reach the chip as the argument of \<open>chip_spi_done\<close>). The array
  \<open>command_buf[16]\<close> is a map from index to byte. Two host-side components the chip
  acts on follow the fields of the struct: \<open>fb_cells\<close>, the pixel store behind the handle
  \<open>framebuffer\<close>, indexed by byte offset, and \<open>host_calls\<close>, the trace of host calls.\<close>

record chip_state_t =
  cs_pin :: pin_t
  dc_pin :: pin_t
  rst_pin :: pin_t
  framebuffer :: buffer_t
  width :: u32
  height :: u32
  mode :: chip_mode_t
  command_code :: u8
  command_size :: u8
  command_index :: u8
  command_buf :: "nat \<Rightarrow> u8"
  ram_write :: bool
  active_column :: u32
  active_page :: u32
  column_start :: u32
  column_end :: u32
  page_start :: u32
  page_end :: u32
  scanning_direction :: u32
  fb_cells :: "nat \<Rightarrow> u32"
  host_calls :: "host_call list"

subsection \<open>Constants\<close>

abbreviation (input) CMD_NOP :: u8 where "CMD_NOP \<equiv> 0x00"
abbreviation (input) CMD_SWRESET :: u8 where "CMD_SWRESET \<equiv> 0x01"
abbreviation (input) CMD_SLPIN :: u8 where "CMD_SLPIN \<equiv> 0x10"
abbreviation (input) CMD_SLPOUT :: u8 where "CMD_SLPOUT \<equiv> 0x11"
abbreviation (input) CMD_INVOFF :: u8 where "CMD_INVOFF \<equiv> 0x20"
abbreviation (input) CMD_INVON :: u8 where "CMD_INVON \<equiv> 0x21"
abbreviation (input) CMD_DISPOFF :: u8 where "CMD_DISPOFF \<equiv> 0x28"
abbreviation (input) CMD_DISPON :: u8 where "CMD_DISPON \<equiv> 0x29"
abbreviation (input) CMD_CASET :: u8 where "CMD_CASET \<equiv> 0x2a"
abbreviation (input) CMD_RASET :: u8 where "CMD_RASET \<equiv> 0x2b"
abbreviation (input) CMD_RAMWR :: u8 where "CMD_RAMWR \<equiv> 0x2c"
abbreviation (input) CMD_MADCTL :: u8 where "CMD_MADCTL \<equiv> 0x36"
abbreviation (input) CMD_COLMOD :: u8 where "CMD_COLMOD \<equiv> 0x3a"
abbreviation (input) CMD_FRMCTR1 :: u8 where "CMD_FRMCTR1 \<equiv> 0xb1"
abbreviation (input) CMD_FRMCTR2 :: u8 where "CMD_FRMCTR2 \<equiv> 0xb2"
abbreviation (input) CMD_FRMCTR3 :: u8 where "CMD_FRMCTR3 \<equiv> 0xb3"
abbreviation (input) CMD_INVCTR :: u8 where "CMD_INVCTR \<equiv> 0xb4"
abbreviation (input) CMD_DISSET5 :: u8 where "CMD_DISSET5 \<equiv> 0xb6"
abbreviation (input) CMD_PWCTR1 :: u8 where "CMD_PWCTR1 \<equiv> 0xc0"
abbreviation (input) CMD_PWCTR2 :: u8 where "CMD_PWCTR2 \<equiv> 0xc1"
abbreviation (input) CMD_PWCTR3 :: u8 where "CMD_PWCTR3 \<equiv> 0xc2"
abbreviation (input) CMD_PWCTR4 :: u8 where "CMD_PWCTR4 \<equiv> 0xc3"
abbreviation (input) CMD_PWCTR5 :: u8 where "CMD_PWCTR5 \<equiv> 0xc4"
abbreviation (input) CMD_VMCTR :: u8 where "CMD_VMCTR \<equiv> 0xc5"
abbreviation (input) CMD_GMCTRP1 :: u8 where "CMD_GMCTRP1 \<equiv> 0xe0"
abbreviation (input) CMD_GMCTRN1 :: u8 where "CMD_GMCTRN1 \<equiv> 0xe1"

abbreviation (input) SCAN_MY :: u32 where "SCAN_MY \<equiv> 0x80"
abbreviation (input) SCAN_MX :: u32 where "SCAN_MX \<equiv> 0x40"
abbreviation (input) SCAN_MV :: u32 where "SCAN_MV \<equiv> 0x20"

abbreviation (input) LOW :: u32 where "LOW \<equiv> 0"

text \<open>A C condition \<open>if (reg & BIT)\<close>.\<close>

definition flag :: "u32 \<Rightarrow> u32 \<Rightarrow> bool" where
  "flag reg b = (reg AND b \<noteq> 0)"

subsection \<open>Host primitives\<close>

definition host :: "host_call \<Rightarrow> chip_state_t \<Rightarrow> chip_state_t" where
  "host c chip = chip\<lparr>host_calls := host_calls chip @ [c]\<rparr>"

text \<open>\<open>buffer_write\<close> of one 4-byte cell: the call is recorded and the cell at that
  byte offset takes the value.\<close>

definition buffer_write :: "u32 \<Rightarrow> u32 \<Rightarrow> chip_state_t \<Rightarrow> chip_state_t" where
  "buffer_write off v chip =
     chip\<lparr>fb_cells := (fb_cells chip)(unat off := v),
          host_calls := host_calls chip @ [Buffer_write off v]\<rparr>"

section \<open>The operations\<close>

subsection \<open>chip_reset\<close>

definition chip_reset :: "chip_state_t \<Rightarrow> chip_state_t" where
  "chip_reset chip =
     (let chip = chip\<lparr>ram_write := False, active_column := 0, active_page := 0,
                      column_start := 0, page_start := 0\<rparr>;
          chip = (if 0 < width chip \<and> 0 < height chip
                  then chip\<lparr>column_end := width chip - 1, page_end := height chip - 1\<rparr>
                  else chip\<lparr>column_end := 127, page_end := 127\<rparr>)
      in chip\<lparr>scanning_direction := 0\<rparr>)"

subsection \<open>chip_init\<close>

text \<open>\<open>chip_init\<close> with what the host returns as parameters: the three pin handles,
  the framebuffer handle with its extent, and the contents of the pixel store.
  \<open>calloc\<close> zeroes everything else.\<close>

definition chip_init ::
  "pin_t \<Rightarrow> pin_t \<Rightarrow> pin_t \<Rightarrow> buffer_t \<Rightarrow> u32 \<Rightarrow> u32 \<Rightarrow> (nat \<Rightarrow> u32) \<Rightarrow> chip_state_t" where
  "chip_init cs dc rst fb w h cells =
     chip_reset
       \<lparr>cs_pin = cs, dc_pin = dc, rst_pin = rst, framebuffer = fb, width = w, height = h,
        mode = MODE_COMMAND, command_code = 0, command_size = 0, command_index = 0,
        command_buf = (\<lambda>_. 0), ram_write = False,
        active_column = 0, active_page = 0, column_start = 0, column_end = 0,
        page_start = 0, page_end = 0, scanning_direction = 0,
        fb_cells = cells, host_calls = []\<rparr>"

subsection \<open>rgb565_to_rgba\<close>

definition rgb565_to_rgba :: "u16 \<Rightarrow> u32" where
  "rgb565_to_rgba v =
     (let r5 = ucast (drop_bit 11 v) AND 0x1f;
          g6 = ucast (drop_bit 5 v) AND 0x3f;
          b5 = ucast v AND 0x1f;
          r8 = push_bit 3 r5 OR drop_bit 2 r5;
          g8 = push_bit 2 g6 OR drop_bit 4 g6;
          b8 = push_bit 3 b5 OR drop_bit 2 b5
      in 0xff000000 OR push_bit 16 r8 OR push_bit 8 g8 OR b8)"

subsection \<open>chip_pin_change\<close>

text \<open>The loop that clears the framebuffer: \<open>i\<close> runs over
  \<open>0 .. width * height - 1\<close>, the product taken in \<open>uint32_t\<close>.\<close>

definition clear_framebuffer :: "chip_state_t \<Rightarrow> chip_state_t" where
  "clear_framebuffer chip =
     fold (\<lambda>i. buffer_write (of_nat i * 4) 0xff000000)
       [0 ..< unat (width chip * height chip)] chip"

text \<open>\<open>cs_level\<close> is what \<open>pin_read(chip->cs_pin)\<close> returns.\<close>

definition chip_pin_change :: "chip_state_t \<Rightarrow> pin_t \<Rightarrow> u32 \<Rightarrow> u32 \<Rightarrow> chip_state_t" where
  "chip_pin_change chip pin val cs_level =
     (let chip =
            (if pin = cs_pin chip then
               (if val = LOW
                then host Spi_start
                       (chip\<lparr>command_size := 0, command_index := 0, command_code := 0\<rparr>)
                else host Spi_stop chip)
             else chip);
          chip =
            (if pin = dc_pin chip then
               (let new_mode = (if val \<noteq> 0 then MODE_DATA else MODE_COMMAND) in
                if mode chip \<noteq> new_mode then
                  (let chip = host Spi_stop chip;
                       chip = chip\<lparr>mode := new_mode\<rparr>
                   in if cs_level = LOW then host Spi_start chip else chip)
                else chip)
             else chip)
      in if pin = rst_pin chip \<and> val = LOW then
           (let chip = host Spi_stop chip;
                chip = chip_reset chip
            in if framebuffer chip \<noteq> 0 then clear_framebuffer chip else chip)
         else chip)"

subsection \<open>command_args_size\<close>

definition command_args_size :: "u8 \<Rightarrow> int" where
  "command_args_size c =
     (if c \<in> {CMD_MADCTL, CMD_PWCTR2, CMD_INVCTR, CMD_VMCTR, CMD_COLMOD} then 1
      else if c \<in> {CMD_PWCTR3, CMD_PWCTR4, CMD_PWCTR5, CMD_DISSET5} then 2
      else if c \<in> {CMD_FRMCTR1, CMD_FRMCTR2, CMD_PWCTR1} then 3
      else if c \<in> {CMD_CASET, CMD_RASET} then 4
      else if c = CMD_FRMCTR3 then 6
      else if c \<in> {CMD_GMCTRP1, CMD_GMCTRN1} then 16
      else 0)"

subsection \<open>execute_command\<close>

text \<open>The body of the \<open>CMD_CASET\<close>/\<open>CMD_RASET\<close> case.\<close>

definition set_window :: "chip_state_t \<Rightarrow> chip_state_t" where
  "set_window chip =
     (if command_size chip < 4 then chip
      else
        (let arg0 :: u16 = push_bit 8 (ucast (command_buf chip 0)) OR ucast (command_buf chip 1);
             arg2 :: u16 = push_bit 8 (ucast (command_buf chip 2)) OR ucast (command_buf chip 3);
             set_page = (command_code chip = CMD_RASET)
         in if (if flag (scanning_direction chip) SCAN_MV then \<not> set_page else set_page) then
              (let chip = chip\<lparr>active_page := ucast arg0, page_start := ucast arg0,
                               page_end := ucast arg2\<rparr>
               in if flag (scanning_direction chip) SCAN_MY then
                    (let chip = (if 32 \<le> page_start chip
                                 then chip\<lparr>page_start := page_start chip - 32\<rparr> else chip);
                         chip = (if 32 \<le> page_end chip
                                 then chip\<lparr>page_end := page_end chip - 32\<rparr> else chip)
                     in if 32 \<le> active_page chip
                        then chip\<lparr>active_page := active_page chip - 32\<rparr> else chip)
                  else chip)
            else chip\<lparr>active_column := ucast arg0, column_start := ucast arg0,
                      column_end := ucast arg2\<rparr>))"

definition execute_command :: "chip_state_t \<Rightarrow> chip_state_t" where
  "execute_command chip =
     (let c = command_code chip in
      if c = CMD_NOP then chip
      else if c = CMD_SLPIN \<or> c = CMD_DISPOFF then chip
      else if c = CMD_SLPOUT \<or> c = CMD_DISPON then chip
      else if c = CMD_INVOFF \<or> c = CMD_INVON then chip
      else if c = CMD_RAMWR then chip\<lparr>ram_write := True\<rparr>
      else if c = CMD_MADCTL then
        chip\<lparr>scanning_direction := ucast (command_buf chip 0) AND 0xff\<rparr>
      else if c = CMD_CASET \<or> c = CMD_RASET then set_window chip
      else if c = CMD_PWCTR1 \<or> c = CMD_SWRESET then chip_reset chip
      else if c = CMD_COLMOD \<or> c = CMD_VMCTR then chip
      else host (Log_unknown c) chip)"

subsection \<open>process_command\<close>

text \<open>One iteration of the loop of \<open>process_command\<close>, on the byte \<open>buffer[i]\<close>.\<close>

definition command_byte :: "u8 \<Rightarrow> chip_state_t \<Rightarrow> chip_state_t" where
  "command_byte b chip =
     (let chip = chip\<lparr>command_code := b\<rparr>;
          chip = chip\<lparr>command_size := word_of_int (command_args_size (command_code chip))\<rparr>;
          chip = chip\<lparr>command_index := 0\<rparr>
      in if command_size chip = 0 then execute_command chip else chip)"

definition process_command :: "chip_state_t \<Rightarrow> u8 list \<Rightarrow> chip_state_t" where
  "process_command chip buffer = fold command_byte buffer (chip\<lparr>ram_write := False\<rparr>)"

subsection \<open>process_command_args\<close>

text \<open>One iteration of the loop of \<open>process_command_args\<close>. The store into
  \<open>command_buf\<close> is at an index below \<open>command_size\<close>, which is at most 16 (the
  length of the array) whenever it comes from \<open>command_args_size\<close>.\<close>

definition arg_byte :: "u8 \<Rightarrow> chip_state_t \<Rightarrow> chip_state_t" where
  "arg_byte b chip =
     (if command_index chip < command_size chip then
        (let chip = chip\<lparr>command_buf := (command_buf chip)(unat (command_index chip) := b),
                         command_index := command_index chip + 1\<rparr>
         in if command_size chip = command_index chip
            then (execute_command chip)\<lparr>command_index := 0\<rparr>
            else chip)
      else chip)"

definition process_command_args :: "chip_state_t \<Rightarrow> u8 list \<Rightarrow> chip_state_t" where
  "process_command_args chip buffer = fold arg_byte buffer chip"

subsection \<open>process_data\<close>

text \<open>The orientation transform of the loop body: \<open>x\<close> and \<open>y\<close> are C \<open>int\<close>s,
  kept as 32-bit words and read as signed where the code compares them.\<close>

definition target_xy :: "chip_state_t \<Rightarrow> u32 \<times> u32" where
  "target_xy chip =
     (let x = active_column chip; y = active_page chip in
      if flag (scanning_direction chip) SCAN_MV then
        (if flag (scanning_direction chip) SCAN_MX then width chip - 1 - x else x,
         if flag (scanning_direction chip) SCAN_MY then height chip - 1 - y else y)
      else
        (if flag (scanning_direction chip) SCAN_MY then width chip - 1 - x else x,
         if flag (scanning_direction chip) SCAN_MX then height chip - 1 - y else y))"

text \<open>The negation of the clamp test
  \<open>x < 0 || x >= (int)width || y < 0 || y >= (int)height\<close>.\<close>

definition in_bounds :: "chip_state_t \<Rightarrow> u32 \<times> u32 \<Rightarrow> bool" where
  "in_bounds chip p =
     (case p of (x, y) \<Rightarrow>
        \<not> (sint x < 0 \<or> sint (width chip) \<le> sint x \<or> sint y < 0 \<or> sint (height chip) \<le> sint y))"

definition write_pixel :: "u16 \<Rightarrow> chip_state_t \<Rightarrow> chip_state_t" where
  "write_pixel v chip =
     (case target_xy chip of (x, y) \<Rightarrow>
        if \<not> in_bounds chip (x, y) then chip
        else
          (let color = rgb565_to_rgba v;
               pix_index = y * width chip + x
           in buffer_write (pix_index * 4) color chip))"

definition advance_cursor :: "chip_state_t \<Rightarrow> chip_state_t" where
  "advance_cursor chip =
     (if flag (scanning_direction chip) SCAN_MV then
        (let chip = chip\<lparr>active_page := active_page chip + 1\<rparr> in
         if page_end chip < active_page chip then
           (let chip = chip\<lparr>active_page := page_start chip\<rparr>;
                chip = chip\<lparr>active_column := active_column chip + 1\<rparr>
            in if column_end chip < active_column chip
               then chip\<lparr>active_column := column_start chip\<rparr> else chip)
         else chip)
      else
        (let chip = chip\<lparr>active_column := active_column chip + 1\<rparr> in
         if column_end chip < active_column chip then
           (let chip = chip\<lparr>active_column := column_start chip\<rparr>;
                chip = chip\<lparr>active_page := active_page chip + 1\<rparr>
            in if page_end chip < active_page chip
               then chip\<lparr>active_page := page_start chip\<rparr> else chip)
         else chip))"

text \<open>The 16-bit big-endian sample \<open>(uint16_t)buf[2*i] << 8 | buf[2*i + 1]\<close>.\<close>

definition sample :: "u8 list \<Rightarrow> nat \<Rightarrow> u16" where
  "sample buf i = push_bit 8 (ucast (buf ! (2 * i))) OR ucast (buf ! (2 * i + 1))"

definition pixel_step :: "u8 list \<Rightarrow> nat \<Rightarrow> chip_state_t \<Rightarrow> chip_state_t" where
  "pixel_step buf i chip = advance_cursor (write_pixel (sample buf i) chip)"

definition process_data :: "chip_state_t \<Rightarrow> u8 list \<Rightarrow> chip_state_t" where
  "process_data chip buf =
     (if length buf < 2 then chip
      else fold (pixel_step buf) [0 ..< length buf div 2] chip)"

subsection \<open>chip_spi_done\<close>

text \<open>\<open>buffer\<close> holds the \<open>count\<close> bytes received; \<open>cs_level\<close> is what
  \<open>pin_read(chip->cs_pin)\<close> returns.\<close>

definition chip_spi_done :: "chip_state_t \<Rightarrow> u8 list \<Rightarrow> u32 \<Rightarrow> chip_state_t" where
  "chip_spi_done chip buffer cs_level =
     (if length buffer = 0 then chip
      else
        (let chip =
               (if mode chip = MODE_DATA then
                  (if ram_write chip then process_data chip buffer
                   else process_command_args chip buffer)
                else process_command chip buffer)
         in if cs_level = LOW then host Spi_start chip else chip))"

section \<open>Vocabulary of the specification\<close>

text \<open>The device registers of the data model (mode, armed flag, cursor, window,
  scanning direction), as one tuple.\<close>

definition registers ::
  "chip_state_t \<Rightarrow> chip_mode_t \<times> bool \<times> u32 \<times> u32 \<times> u32 \<times> u32 \<times> u32 \<times> u32 \<times> u32" where
  "registers chip =
     (mode chip, ram_write chip, active_column chip, active_page chip,
      column_start chip, column_end chip, page_start chip, page_end chip,
      scanning_direction chip)"

text \<open>The colour conversion in the words of the specification, on natural numbers: the
  16-bit sample \<open>v\<close> holds 5 bits of red, 6 of green and 5 of blue; each channel is
  shifted left to 8 bits and its low bits are filled with the channel's own high bits;
  the cell is \<open>0xFF\<close> alpha, then red, green and blue. Lemma \<open>rgb565_to_rgba_spec\<close>
  shows that \<open>rgb565_to_rgba\<close> computes it.\<close>

definition spec_rgb565_to_argb :: "nat \<Rightarrow> nat" where
  "spec_rgb565_to_argb v =
     (let r5 = v div 2048 mod 32; g6 = v div 32 mod 64; b5 = v mod 32;
          r8 = r5 * 8 + r5 div 4;
          g8 = g6 * 4 + g6 div 16;
          b8 = b5 * 8 + b5 div 4
      in 255 * 2 ^ 24 + r8 * 2 ^ 16 + g8 * 2 ^ 8 + b8)"

subsection \<open>Concrete devices used in examples\<close>

definition blank_cells :: "nat \<Rightarrow> u32" where
  "blank_cells = (\<lambda>_. 0)"

text \<open>A 240 x 320 panel right after \<open>chip_init\<close>.\<close>

definition demo_chip :: chip_state_t where
  "demo_chip = chip_init 1 2 3 7 240 320 blank_cells"

text \<open>The same panel after \<open>MADCTL\<close> with the row-mirror bit (\<open>SCAN_MY\<close>).\<close>

definition demo_mirrored :: chip_state_t where
  "demo_mirrored = process_command_args (process_command demo_chip [CMD_MADCTL]) [0x80]"

text \<open>The same panel after \<open>RAMWR\<close>.\<close>

definition demo_armed :: chip_state_t where
  "demo_armed = process_command demo_chip [CMD_RAMWR]"

text \<open>The 240 x 320 panel after \<open>CASET\<close> with start \<open>0x0100\<close> and end \<open>0x0010\<close>,
  then \<open>RAMWR\<close>: armed, with a column window whose start lies beyond its end.\<close>

definition demo_inverted :: chip_state_t where
  "demo_inverted =
     process_command
       (process_command_args (process_command demo_chip [CMD_CASET]) [0x01, 0x00, 0x00, 0x10])
       [CMD_RAMWR]"

text \<open>A 2 x 2 panel right after \<open>chip_init\<close>, and the same panel after the data/command
  line (pin 2) has gone high while chip-select is high.\<close>

definition tiny_chip :: chip_state_t where
  "tiny_chip = chip_init 1 2 3 7 2 2 blank_cells"

definition tiny_data :: chip_state_t where
  "tiny_data = chip_pin_change tiny_chip 2 1 1"

text \<open>The 2 x 2 panel after \<open>CASET\<close> with start 2 and end 5: the column window, and
  with it the cursor, lies outside the framebuffer.\<close>

definition tiny_wide :: chip_state_t where
  "tiny_wide =
     process_command_args (process_command tiny_chip [CMD_CASET]) [0x00, 0x02, 0x00, 0x05]"


text \<open>The 2 x 2 panel after the command byte \<open>RAMWR\<close> has been received with
  chip-select low and the data/command line (pin 2) has then gone high: armed, in data
  mode.\<close>

definition tiny_writing :: chip_state_t where
  "tiny_writing = chip_pin_change (chip_spi_done tiny_chip [CMD_RAMWR] LOW) 2 1 LOW"

subsection \<open>The pixel stream as a list of samples\<close>

text \<open>The complete 16-bit samples of a byte batch, in order (a trailing odd byte is
  dropped), and the loop body of \<open>process_data\<close> on one sample. Lemma
  \<open>process_data_samples\<close> shows that \<open>process_data\<close> is the fold of \<open>sample_step\<close>
  over \<open>samples\<close>.\<close>

fun samples :: "u8 list \<Rightarrow> u16 list" where
  "samples (hi # lo # rest) = (push_bit 8 (ucast hi) OR ucast lo) # samples rest"
| "samples _ = []"

definition sample_step :: "u16 \<Rightarrow> chip_state_t \<Rightarrow> chip_state_t" where
  "sample_step v chip = advance_cursor (write_pixel v chip)"

text \<open>The cursor lies inside the addressing window.\<close>

definition cursor_in_window :: "chip_state_t \<Rightarrow> bool" where
  "cursor_in_window chip =
     (column_start chip \<le> active_column chip \<and> active_column chip \<le> column_end chip \<and>
      page_start chip \<le> active_page chip \<and> active_page chip \<le> page_end chip)"

text \<open>The window is the full framebuffer, the orientation is the identity, and the
  cursor is at the \<open>k\<close>-th cell in row-major order (wrapping after the last cell).\<close>

definition frame_pos :: "chip_state_t \<Rightarrow> nat \<Rightarrow> bool" where
  "frame_pos s k =
     (column_start s = 0 \<and> column_end s = width s - 1 \<and>
      page_start s = 0 \<and> page_end s = height s - 1 \<and>
      scanning_direction s = 0 \<and>
      active_column s = of_nat (k mod unat (width s)) \<and>
      active_page s = of_nat (k div unat (width s) mod unat (height s)))"

text \<open>The pixel store \<open>g\<close> is \<open>f\<close> with the cells \<open>k, k + 1, ...\<close> overwritten by the
  decoded samples \<open>vs\<close>, in order.\<close>

definition cells_filled :: "(nat \<Rightarrow> u32) \<Rightarrow> (nat \<Rightarrow> u32) \<Rightarrow> nat \<Rightarrow> u16 list \<Rightarrow> bool" where
  "cells_filled f g k vs =
     ((\<forall>i<length vs. g (4 * (k + i)) = rgb565_to_rgba (vs ! i)) \<and>
      (\<forall>j. (\<forall>i<length vs. j \<noteq> 4 * (k + i)) \<longrightarrow> g j = f j))"

text \<open>A host call that writes one cell at the byte offset of an in-bounds coordinate.\<close>

definition write_in_bounds :: "chip_state_t \<Rightarrow> host_call \<Rightarrow> bool" where
  "write_in_bounds s c =
     (\<exists>x y v. c = Buffer_write ((y * width s + x) * 4) v \<and>
        unat x < unat (width s) \<and> unat y < unat (height s) \<and>
        unat (y * width s + x) < unat (width s) * unat (height s))"

section \<open>Command decoding and execution\<close>

lemmas run_defs = chip_init_def chip_reset_def process_command_def command_byte_def
  command_args_size_def process_command_args_def arg_byte_def execute_command_def
  set_window_def flag_def host_def Let_def

subsection \<open>Auxiliary facts\<close>

lemma ucast_be16:
  "(ucast (push_bit 8 (ucast (a::u8)) OR ucast (b::u8) :: u16) :: u32) =
     push_bit 8 (ucast a) OR ucast b"
  by (rule bit_word_eqI) (auto simp: bit_simps dest: bit_imp_le_length)

lemma unat_plus1_lt:
  fixes x y :: "'a::len word"
  assumes "unat x < unat y"
  shows "unat (x + 1) = unat x + 1"
proof -
  have "unat y < 2 ^ LENGTH('a)" by simp
  with assms have "unat x + 1 < 2 ^ LENGTH('a)" by linarith
  then show ?thesis by (simp add: unat_word_ariths)
qed

lemma unat_args_size:
  "unat (word_of_int (command_args_size c) :: u8) = nat (command_args_size c)"
  by (simp add: command_args_size_def)

text \<open>An opcode followed by its four argument bytes reaches \<open>execute_command\<close> with the
  bytes in \<open>command_buf[0..3]\<close>.\<close>

lemma window_set_state:
  assumes "op = CMD_CASET \<or> op = CMD_RASET"
  shows "process_command_args (process_command s [op]) [c0, c1, c2, c3] =
     execute_command (s\<lparr>ram_write := False, command_code := op, command_size := 4,
        command_buf := (command_buf s)(0 := c0, 1 := c1, 2 := c2, 3 := c3),
        command_index := 4\<rparr>)
       \<lparr>command_index := 0\<rparr>"
  using assms
  by (elim disjE)
    (simp_all add: process_command_def command_byte_def command_args_size_def
      process_command_args_def arg_byte_def Let_def)

lemma window_set_fields:
  assumes "op = CMD_CASET \<or> op = CMD_RASET"
  shows "(let s' = process_command_args (process_command s [op]) [c0, c1, c2, c3];
             a0 = push_bit 8 (ucast c0) OR ucast c1;
             a2 = push_bit 8 (ucast c2) OR ucast c3;
             my = flag (scanning_direction s) SCAN_MY
         in
         if flag (scanning_direction s) SCAN_MV \<noteq> (op = CMD_RASET) then
           page_start s' = (if my \<and> 32 \<le> a0 then a0 - 32 else a0) \<and>
           page_end s' = (if my \<and> 32 \<le> a2 then a2 - 32 else a2) \<and>
           active_page s' = (if my \<and> 32 \<le> a0 then a0 - 32 else a0) \<and>
           active_column s' = active_column s \<and>
           column_start s' = column_start s \<and> column_end s' = column_end s
         else
           column_start s' = a0 \<and> column_end s' = a2 \<and> active_column s' = a0 \<and>
           active_page s' = active_page s \<and>
           page_start s' = page_start s \<and> page_end s' = page_end s)"
  unfolding window_set_state[OF assms]
  using assms
  by (elim disjE) (simp_all add: execute_command_def set_window_def Let_def ucast_be16)

lemma window_set_extent:
  assumes "op = CMD_CASET \<or> op = CMD_RASET"
  shows "width (process_command_args (process_command s [op]) [c0, c1, c2, c3]) = width s
       \<and> height (process_command_args (process_command s [op]) [c0, c1, c2, c3]) = height s"
  unfolding window_set_state[OF assms]
  using assms
  by (elim disjE) (simp_all add: execute_command_def set_window_def Let_def)

text \<open>While fewer argument bytes have arrived than the opcode needs, each byte is only
  stored.\<close>

lemma arg_byte_pending:
  assumes "unat (command_index s) + 1 < unat (command_size s)"
  shows "arg_byte b s = s\<lparr>command_buf := (command_buf s)(unat (command_index s) := b),
                          command_index := command_index s + 1\<rparr>"
proof -
  have lt: "command_index s < command_size s"
    using assms by (simp add: word_less_nat_alt)
  have u: "unat (command_index s + 1) = unat (command_index s) + 1"
    using assms by (intro unat_plus1_lt[of _ "command_size s"]) simp
  have ne: "command_size s \<noteq> command_index s + 1"
    using assms u by auto
  show ?thesis using lt ne by (simp add: arg_byte_def Let_def)
qed

lemma args_pending:
  "unat (command_index s) + length args < unat (command_size s) \<Longrightarrow>
   registers (fold arg_byte args s) = registers s \<and>
   fb_cells (fold arg_byte args s) = fb_cells s \<and>
   host_calls (fold arg_byte args s) = host_calls s"
proof (induction args arbitrary: s)
  case Nil
  then show ?case by simp
next
  case (Cons b args)
  have p: "unat (command_index s) + 1 < unat (command_size s)"
    using Cons.prems by simp
  have u: "unat (command_index s + 1) = unat (command_index s) + 1"
    using p by (intro unat_plus1_lt[of _ "command_size s"]) simp
  let ?t = "s\<lparr>command_buf := (command_buf s)(unat (command_index s) := b),
              command_index := command_index s + 1\<rparr>"
  have "unat (command_index ?t) + length args < unat (command_size ?t)"
    using Cons.prems u by simp
  from Cons.IH[OF this] show ?case
    by (simp add: arg_byte_pending[OF p] registers_def)
qed

lemma partial_command:
  assumes "int (length args) < command_args_size op"
  shows "registers (process_command_args (process_command s [op]) args) =
           registers (s\<lparr>ram_write := False\<rparr>) \<and>
         fb_cells (process_command_args (process_command s [op]) args) = fb_cells s \<and>
         host_calls (process_command_args (process_command s [op]) args) = host_calls s"
proof -
  let ?t = "s\<lparr>ram_write := False, command_code := op,
      command_size := word_of_int (command_args_size op), command_index := 0\<rparr>"
  have nz: "(word_of_int (command_args_size op) :: u8) \<noteq> 0"
    using assms unat_args_size[of op]
    by (auto simp: unat_eq_0[symmetric] simp del: unat_eq_0)
  have pc: "process_command s [op] = ?t"
    using nz by (simp add: process_command_def command_byte_def Let_def)
  have "unat (command_index ?t) + length args < unat (command_size ?t)"
    using assms by (simp add: unat_args_size)
  from args_pending[OF this] show ?thesis
    by (simp add: pc process_command_args_def registers_def)
qed

text \<open>What one byte of a command-mode batch does to the armed flag: only the
  zero-argument opcodes are executed here, and of those \<open>RAMWR\<close> sets the flag and
  \<open>SWRESET\<close> clears it.\<close>

lemma ram_write_command_byte:
  "ram_write (command_byte b s) =
     (if b = CMD_RAMWR then True else if b = CMD_SWRESET then False else ram_write s)"
  by (simp add: command_byte_def command_args_size_def execute_command_def Let_def
      chip_reset_def host_def)

lemma ram_write_fold_snoc:
  "ram_write (fold command_byte (xs @ [b]) s) =
     (if b = CMD_RAMWR then True else if b = CMD_SWRESET then False
      else ram_write (fold command_byte xs s))"
  by (simp add: ram_write_command_byte)

lemma armed_split_snoc:
  "(\<exists>pre post. xs @ [b] = pre @ CMD_RAMWR # post \<and> CMD_SWRESET \<notin> set post) =
     (if b = CMD_RAMWR then True else if b = CMD_SWRESET then False
      else (\<exists>pre post. xs = pre @ CMD_RAMWR # post \<and> CMD_SWRESET \<notin> set post))"
proof (cases "b = CMD_RAMWR")
  case True
  have "xs @ [b] = xs @ CMD_RAMWR # [] \<and> CMD_SWRESET \<notin> set ([] :: u8 list)"
    using True by simp
  then have "\<exists>pre post. xs @ [b] = pre @ CMD_RAMWR # post \<and> CMD_SWRESET \<notin> set post"
    by blast
  then show ?thesis using True by simp
next
  case nr: False
  have split: "(xs @ [b] = pre @ CMD_RAMWR # post) =
      (\<exists>p. post = p @ [b] \<and> xs = pre @ CMD_RAMWR # p)" for pre post
  proof (cases post rule: rev_cases)
    case Nil
    then show ?thesis using nr by auto
  next
    case (snoc p c)
    have "(xs @ [b] = (pre @ CMD_RAMWR # p) @ [c]) = (xs = pre @ CMD_RAMWR # p \<and> b = c)"
      by (rule append1_eq_conv)
    then show ?thesis using snoc by auto
  qed
  have ex: "(\<exists>pre post. xs @ [b] = pre @ CMD_RAMWR # post \<and> CMD_SWRESET \<notin> set post) =
     (\<exists>pre p. xs = pre @ CMD_RAMWR # p \<and> CMD_SWRESET \<notin> set (p @ [b]))"
    unfolding split by blast
  show ?thesis
    unfolding ex using nr by auto
qed

subsection \<open>The armed flag\<close>

text \<open>C2 (amended). \<open>ram_write\<close> is cleared once at the start of every command-mode
  batch and set by executing \<open>RAMWR\<close>; of the opcodes executed from a command-mode
  batch only \<open>SWRESET\<close> clears it again. So after a command-mode batch the flag is
  true exactly when the batch contains a \<open>RAMWR\<close> byte with no \<open>SWRESET\<close> byte
  after it: a command byte of a later batch clears the flag, a command byte that follows
  \<open>RAMWR\<close> in the same batch (a no-op, say) does not.\<close>

theorem ram_write_after_command_batch:
  "ram_write (process_command s buf) =
     (\<exists>pre post. buf = pre @ CMD_RAMWR # post \<and> CMD_SWRESET \<notin> set post)"
  unfolding process_command_def
proof (induction buf rule: rev_induct)
  case Nil
  then show ?case by simp
next
  case (snoc b xs)
  show ?case
    unfolding ram_write_fold_snoc armed_split_snoc snoc.IH ..
qed

text \<open>C2 as stated fails: the batch \<open>RAMWR, NOP\<close> leaves the flag set although a
  further command byte has been processed.\<close>

theorem ram_write_survives_nop_counterexample:
  "ram_write (process_command demo_chip [CMD_RAMWR, CMD_NOP])"
  by (simp add: demo_chip_def run_defs)

subsection \<open>Window-set commands\<close>

text \<open>C3 (amended). \<open>CASET\<close> or \<open>RASET\<close> followed by exactly four argument bytes
  \<open>c0, c1, c2, c3\<close> targets the page axis when the swap bit differs from "the opcode
  is \<open>RASET\<close>" and the column axis otherwise. On the column axis, start is
  \<open>c0<<8|c1\<close>, end is \<open>c2<<8|c3\<close> and the cursor is start. On the page axis the same
  holds, except that with the row-mirror bit set each of start, end and cursor that is at
  least 32 is reduced by 32. The other axis's cursor is untouched.\<close>

theorem window_set_targets_axis:
  assumes "op = CMD_CASET \<or> op = CMD_RASET"
  shows "let s' = process_command_args (process_command s [op]) [c0, c1, c2, c3];
             start = push_bit 8 (ucast c0) OR ucast c1;
             fin = push_bit 8 (ucast c2) OR ucast c3;
             shift = (\<lambda>v. if flag (scanning_direction s) SCAN_MY \<and> 32 \<le> v then v - 32 else v)
         in
         if flag (scanning_direction s) SCAN_MV \<noteq> (op = CMD_RASET) then
           page_start s' = shift start \<and> page_end s' = shift fin \<and>
           active_page s' = shift start \<and> active_column s' = active_column s
         else
           column_start s' = start \<and> column_end s' = fin \<and>
           active_column s' = start \<and> active_page s' = active_page s"
  using window_set_fields[OF assms, of s c0 c1 c2 c3] by (simp add: Let_def)

theorem window_set_targets_axis_witness:
  "(CMD_CASET = CMD_CASET \<or> CMD_CASET = CMD_RASET) \<and>
   column_start (process_command_args (process_command demo_chip [CMD_CASET])
     [0x00, 0x10, 0x00, 0x20]) = 16 \<and>
   column_end (process_command_args (process_command demo_chip [CMD_CASET])
     [0x00, 0x10, 0x00, 0x20]) = 32 \<and>
   active_column (process_command_args (process_command demo_chip [CMD_CASET])
     [0x00, 0x10, 0x00, 0x20]) = 16 \<and>
   active_page (process_command_args (process_command demo_chip [CMD_CASET])
     [0x00, 0x10, 0x00, 0x20]) = active_page demo_chip"
  using window_set_targets_axis[of CMD_CASET demo_chip "0x00" "0x10" "0x00" "0x20"]
  by (simp add: Let_def flag_def demo_chip_def chip_init_def chip_reset_def)

text \<open>C3 as stated fails under the row-mirror bit: \<open>RASET 0x0040 0x0050\<close> sets the
  page start to \<open>0x20\<close>, not to \<open>c0<<8|c1 = 0x40\<close>.\<close>

theorem window_set_mirrored_counterexample:
  "page_start (process_command_args (process_command demo_mirrored [CMD_RASET])
     [0x00, 0x40, 0x00, 0x50]) = 0x20 \<and>
   page_start (process_command_args (process_command demo_mirrored [CMD_RASET])
     [0x00, 0x40, 0x00, 0x50])
     \<noteq> push_bit 8 (ucast (0x00 :: u8)) OR ucast (0x40 :: u8)"
  by (simp add: demo_mirrored_def demo_chip_def run_defs)

text \<open>C6 (amended). A window-set command with its four argument bytes stores the decoded
  bounds without validating them: afterwards \<open>start \<le> end < extent\<close> holds on the
  targeted axis exactly when the decoded values (after the row-mirror reduction by 32 on
  the page axis) satisfy it, and the bounds of the other axis are unchanged. A window-set
  command with fewer than four argument bytes leaves the window unchanged.\<close>

theorem window_set_unvalidated:
  assumes "op = CMD_CASET \<or> op = CMD_RASET"
  shows "(let s' = process_command_args (process_command s [op]) [c0, c1, c2, c3];
              start = push_bit 8 (ucast c0) OR ucast c1;
              fin = push_bit 8 (ucast c2) OR ucast c3;
              shift = (\<lambda>v. if flag (scanning_direction s) SCAN_MY \<and> 32 \<le> v then v - 32 else v)
          in
          if flag (scanning_direction s) SCAN_MV \<noteq> (op = CMD_RASET) then
            (page_start s' \<le> page_end s' \<and> page_end s' < height s') =
              (shift start \<le> shift fin \<and> shift fin < height s) \<and>
            column_start s' = column_start s \<and> column_end s' = column_end s
          else
            (column_start s' \<le> column_end s' \<and> column_end s' < width s') =
              (start \<le> fin \<and> fin < width s) \<and>
            page_start s' = page_start s \<and> page_end s' = page_end s) \<and>
         (\<forall>args. length args < 4 \<longrightarrow>
            column_start (process_command_args (process_command s [op]) args) = column_start s \<and>
            column_end (process_command_args (process_command s [op]) args) = column_end s \<and>
            page_start (process_command_args (process_command s [op]) args) = page_start s \<and>
            page_end (process_command_args (process_command s [op]) args) = page_end s)"
proof -
  have short:
    "column_start (process_command_args (process_command s [op]) args) = column_start s \<and>
     column_end (process_command_args (process_command s [op]) args) = column_end s \<and>
     page_start (process_command_args (process_command s [op]) args) = page_start s \<and>
     page_end (process_command_args (process_command s [op]) args) = page_end s"
    if "length args < 4" for args
  proof -
    have "int (length args) < command_args_size op"
      using assms that by (auto simp: command_args_size_def)
    from partial_command[OF this, of s] show ?thesis
      by (simp add: registers_def)
  qed
  show ?thesis
    using window_set_fields[OF assms, of s c0 c1 c2 c3]
      window_set_extent[OF assms, of s c0 c1 c2 c3] short
    by (simp add: Let_def)
qed

theorem window_set_unvalidated_witness:
  "(CMD_CASET = CMD_CASET \<or> CMD_CASET = CMD_RASET) \<and>
   length [0x00, 0x10 :: u8] < 4 \<and>
   column_start (process_command_args (process_command demo_chip [CMD_CASET]) [0x00, 0x10]) = 0 \<and>
   column_end (process_command_args (process_command demo_chip [CMD_CASET]) [0x00, 0x10]) = 239 \<and>
   (column_start (process_command_args (process_command demo_chip [CMD_CASET])
       [0x00, 0x10, 0x00, 0x20])
      \<le> column_end (process_command_args (process_command demo_chip [CMD_CASET])
       [0x00, 0x10, 0x00, 0x20]) \<and>
    column_end (process_command_args (process_command demo_chip [CMD_CASET])
       [0x00, 0x10, 0x00, 0x20])
      < width (process_command_args (process_command demo_chip [CMD_CASET])
       [0x00, 0x10, 0x00, 0x20]))"
proof -
  have op: "CMD_CASET = CMD_CASET \<or> CMD_CASET = CMD_RASET" by simp
  have sd: "scanning_direction demo_chip = 0" "width demo_chip = 240"
    "column_start demo_chip = 0" "column_end demo_chip = 239"
    by (simp_all add: demo_chip_def chip_init_def chip_reset_def)
  note t = window_set_unvalidated[OF op, of demo_chip "0x00" "0x10" "0x00" "0x20"]
  have short: "length [0x00, 0x10 :: u8] < 4" by simp
  from t have a:
    "column_start (process_command_args (process_command demo_chip [CMD_CASET]) [0x00, 0x10]) = 0 \<and>
     column_end (process_command_args (process_command demo_chip [CMD_CASET]) [0x00, 0x10]) = 239"
    using short sd by (simp add: Let_def)
  from t have b:
    "(column_start (process_command_args (process_command demo_chip [CMD_CASET])
        [0x00, 0x10, 0x00, 0x20])
      \<le> column_end (process_command_args (process_command demo_chip [CMD_CASET])
        [0x00, 0x10, 0x00, 0x20]) \<and>
    column_end (process_command_args (process_command demo_chip [CMD_CASET])
        [0x00, 0x10, 0x00, 0x20])
      < width (process_command_args (process_command demo_chip [CMD_CASET])
        [0x00, 0x10, 0x00, 0x20]))"
    using sd by (simp add: Let_def flag_def)
  show ?thesis using a b short by simp
qed

text \<open>C6 as stated fails: \<open>CASET 0x0100 0x0010\<close> on the 240-column panel is executed
  and leaves \<open>column_start = 256 > column_end = 16\<close>.\<close>

theorem window_set_inverted_counterexample:
  "\<not> (column_start (process_command_args (process_command demo_chip [CMD_CASET])
         [0x01, 0x00, 0x00, 0x10])
       \<le> column_end (process_command_args (process_command demo_chip [CMD_CASET])
         [0x01, 0x00, 0x00, 0x10])
     \<and> column_end (process_command_args (process_command demo_chip [CMD_CASET])
         [0x01, 0x00, 0x00, 0x10])
       < width (process_command_args (process_command demo_chip [CMD_CASET])
         [0x01, 0x00, 0x00, 0x10]))"
  by (simp add: demo_chip_def run_defs)

text \<open>C7 (the code at the failing input). With the row-mirror bit set, \<open>RASET\<close> with
  start 10 and end 20 leaves start, end and cursor at 10, 20 and 10: a value below 32 is
  not clamped to 0, it is left as it is.\<close>

theorem row_mirror_offset_below_32:
  "page_start (process_command_args (process_command demo_mirrored [CMD_RASET])
     [0x00, 0x0A, 0x00, 0x14]) = 10 \<and>
   page_end (process_command_args (process_command demo_mirrored [CMD_RASET])
     [0x00, 0x0A, 0x00, 0x14]) = 20 \<and>
   active_page (process_command_args (process_command demo_mirrored [CMD_RASET])
     [0x00, 0x0A, 0x00, 0x14]) = 10"
  by (simp add: demo_mirrored_def demo_chip_def run_defs)

subsection \<open>Commands with too few argument bytes\<close>

lemma execute_command_frame:
  "mode (execute_command s) = mode s" "cs_pin (execute_command s) = cs_pin s"
  "dc_pin (execute_command s) = dc_pin s" "rst_pin (execute_command s) = rst_pin s"
  "fb_cells (execute_command s) = fb_cells s"
  by (simp_all add: execute_command_def set_window_def chip_reset_def host_def Let_def)

lemma command_byte_frame:
  "mode (command_byte b s) = mode s" "cs_pin (command_byte b s) = cs_pin s"
  "dc_pin (command_byte b s) = dc_pin s" "rst_pin (command_byte b s) = rst_pin s"
  "fb_cells (command_byte b s) = fb_cells s"
  by (simp_all add: command_byte_def Let_def execute_command_frame)

lemma fold_command_byte_frame:
  "mode (fold command_byte bs s) = mode s \<and> cs_pin (fold command_byte bs s) = cs_pin s \<and>
   dc_pin (fold command_byte bs s) = dc_pin s \<and> rst_pin (fold command_byte bs s) = rst_pin s \<and>
   fb_cells (fold command_byte bs s) = fb_cells s"
  by (induction bs arbitrary: s) (simp_all add: command_byte_frame)

lemma process_command_frame:
  "mode (process_command s bs) = mode s" "cs_pin (process_command s bs) = cs_pin s"
  "dc_pin (process_command s bs) = dc_pin s" "rst_pin (process_command s bs) = rst_pin s"
  "fb_cells (process_command s bs) = fb_cells s"
  using fold_command_byte_frame[of bs "s\<lparr>ram_write := False\<rparr>"]
  by (simp_all add: process_command_def)

lemma process_command_snoc:
  "process_command s (pre @ [op]) = command_byte op (process_command s pre)"
  by (simp add: process_command_def)

lemma command_byte_pending:
  assumes "0 < command_args_size op"
  shows "command_byte op c =
     c\<lparr>command_code := op, command_size := word_of_int (command_args_size op),
       command_index := 0\<rparr>"
proof -
  have "(word_of_int (command_args_size op) :: u8) \<noteq> 0"
    using assms unat_args_size[of op]
    by (auto simp: unat_eq_0[symmetric] simp del: unat_eq_0)
  then show ?thesis by (simp add: command_byte_def Let_def)
qed

text \<open>C8 (amended). Let an opcode of the arity table be the last byte of a command-mode
  batch, let the data/command line then go high, and let fewer argument bytes than the
  opcode's arity arrive in data mode. The opcode byte itself changes no device register,
  no framebuffer cell and no host call: \<open>ram_write\<close> is cleared at the start of the
  batch, not by the opcode. If the device is not armed after the batch, the argument
  bytes are only stored: every device register keeps its value (\<open>mode\<close> follows the
  data/command line), no framebuffer cell changes and the only host calls are the
  transport stop and restarts. If an earlier \<open>RAMWR\<close> of the same batch has left the
  device armed, the bytes go to the pixel writer instead. An opcode that is alone in its
  batch leaves every register but \<open>ram_write\<close>, which the batch start clears, at its
  value before the command.\<close>

theorem short_command_dropped:
  assumes "int (length args) < command_args_size op"
    and "mode s = MODE_COMMAND" "dc_pin s \<noteq> cs_pin s" "dc_pin s \<noteq> rst_pin s"
  shows "let c = process_command s (pre @ [op]);
             t = chip_pin_change c (dc_pin s) 1 cs;
             u = chip_spi_done t args cs'
         in registers c = registers (process_command s pre) \<and>
            fb_cells c = fb_cells s \<and>
            host_calls c = host_calls (process_command s pre) \<and>
            (\<not> ram_write c \<longrightarrow>
               registers u = registers (c\<lparr>mode := MODE_DATA\<rparr>) \<and>
               fb_cells u = fb_cells s \<and>
               host_calls u =
                 host_calls c @ Spi_stop # (if cs = LOW then [Spi_start] else []) @
                   (if args \<noteq> [] \<and> cs' = LOW then [Spi_start] else [])) \<and>
            (ram_write c \<longrightarrow>
               u = (if args = [] then t
                    else if cs' = LOW then host Spi_start (process_data t args)
                    else process_data t args)) \<and>
            registers (process_command_args (process_command s [op]) args) =
              registers (s\<lparr>ram_write := False\<rparr>) \<and>
            fb_cells (process_command_args (process_command s [op]) args) = fb_cells s \<and>
            host_calls (process_command_args (process_command s [op]) args) = host_calls s"
proof -
  define p where "p = process_command s pre"
  define c where "c = process_command s (pre @ [op])"
  define t where "t = chip_pin_change c (dc_pin s) 1 cs"
  define u where "u = chip_spi_done t args cs'"
  have pos: "0 < command_args_size op" using assms(1) by linarith
  have c: "c = p\<lparr>command_code := op, command_size := word_of_int (command_args_size op),
       command_index := 0\<rparr>"
    unfolding c_def p_def process_command_snoc by (rule command_byte_pending[OF pos])
  have pf: "mode p = MODE_COMMAND" "cs_pin p = cs_pin s" "dc_pin p = dc_pin s"
    "rst_pin p = rst_pin s" "fb_cells p = fb_cells s"
    unfolding p_def process_command_frame by (simp_all add: assms(2))
  have c1: "registers c = registers p" "fb_cells c = fb_cells s" "host_calls c = host_calls p"
    unfolding c by (simp_all add: registers_def pf)
  have t: "t = (if cs = LOW then host Spi_start ((host Spi_stop c)\<lparr>mode := MODE_DATA\<rparr>)
                else (host Spi_stop c)\<lparr>mode := MODE_DATA\<rparr>)"
    unfolding t_def chip_pin_change_def
    using assms(3,4) by (simp add: c pf Let_def host_def)
  have tf: "mode t = MODE_DATA" "ram_write t = ram_write c"
    "registers t = registers (c\<lparr>mode := MODE_DATA\<rparr>)" "fb_cells t = fb_cells s"
    "host_calls t = host_calls c @ Spi_stop # (if cs = LOW then [Spi_start] else [])"
    "command_index t = 0" "command_size t = word_of_int (command_args_size op)"
    unfolding t by (simp_all add: host_def registers_def c pf)
  have pend: "unat (command_index t) + length args < unat (command_size t)"
    unfolding tf using assms(1) by (simp add: unat_args_size)
  note ap = args_pending[OF pend]
  have cold: "registers u = registers (c\<lparr>mode := MODE_DATA\<rparr>) \<and>
               fb_cells u = fb_cells s \<and>
               host_calls u =
                 host_calls c @ Spi_stop # (if cs = LOW then [Spi_start] else []) @
                   (if args \<noteq> [] \<and> cs' = LOW then [Spi_start] else [])"
    if na: "\<not> ram_write c"
  proof (cases "args = []")
    case True
    then have "u = t" unfolding u_def by (simp add: chip_spi_done_def)
    then show ?thesis using True tf by simp
  next
    case False
    have "u = (if cs' = LOW then host Spi_start (fold arg_byte args t) else fold arg_byte args t)"
      unfolding u_def using False na tf(1,2)
      by (simp add: chip_spi_done_def process_command_args_def Let_def)
    then show ?thesis using False ap tf
      by (simp add: host_def registers_def)
  qed
  have armed: "u = (if args = [] then t
                    else if cs' = LOW then host Spi_start (process_data t args)
                    else process_data t args)"
    if "ram_write c"
    unfolding u_def using that tf(1,2) by (simp add: chip_spi_done_def Let_def)
  note single = partial_command[OF assms(1), of s]
  show ?thesis
    unfolding Let_def c_def[symmetric] t_def[symmetric] u_def[symmetric] p_def[symmetric]
    using c1 cold armed single by blast
qed

lemma demo_armed_fields:
  "mode demo_armed = MODE_COMMAND" "cs_pin demo_armed = 1" "dc_pin demo_armed = 2"
  "rst_pin demo_armed = 3" "ram_write demo_armed = True"
  by (simp_all add: demo_armed_def demo_chip_def run_defs)

theorem short_command_dropped_witness:
  "int (length [0x00, 0x10 :: u8]) < command_args_size CMD_CASET \<and>
   mode demo_armed = MODE_COMMAND \<and> dc_pin demo_armed \<noteq> cs_pin demo_armed \<and>
   dc_pin demo_armed \<noteq> rst_pin demo_armed \<and>
   registers (chip_spi_done
      (chip_pin_change (process_command demo_armed [CMD_CASET]) (dc_pin demo_armed) 1 LOW)
      [0x00, 0x10] LOW) = (MODE_DATA, False, 0, 0, 0, 239, 0, 319, 0) \<and>
   fb_cells (chip_spi_done
      (chip_pin_change (process_command demo_armed [CMD_CASET]) (dc_pin demo_armed) 1 LOW)
      [0x00, 0x10] LOW) = fb_cells demo_armed"
proof -
  have h: "int (length [0x00, 0x10 :: u8]) < command_args_size CMD_CASET"
    "mode demo_armed = MODE_COMMAND" "dc_pin demo_armed \<noteq> cs_pin demo_armed"
    "dc_pin demo_armed \<noteq> rst_pin demo_armed"
    by (simp_all add: command_args_size_def demo_armed_fields)
  have na: "\<not> ram_write (process_command demo_armed [CMD_CASET])"
    by (simp add: process_command_def command_byte_def command_args_size_def Let_def)
  have r: "registers ((process_command demo_armed [CMD_CASET])\<lparr>mode := MODE_DATA\<rparr>) =
      (MODE_DATA, False, 0, 0, 0, 239, 0, 319, 0)"
    by (simp add: registers_def demo_armed_def demo_chip_def run_defs)
  note t = short_command_dropped[OF h, of "[]" LOW LOW, unfolded Let_def, simplified]
  from t na have "registers (chip_spi_done
      (chip_pin_change (process_command demo_armed [CMD_CASET]) (dc_pin demo_armed) 1 LOW)
      [0x00, 0x10] LOW) = registers ((process_command demo_armed [CMD_CASET])\<lparr>mode := MODE_DATA\<rparr>)"
    and "fb_cells (chip_spi_done
      (chip_pin_change (process_command demo_armed [CMD_CASET]) (dc_pin demo_armed) 1 LOW)
      [0x00, 0x10] LOW) = fb_cells demo_armed"
    by blast+
  then show ?thesis using h r by simp
qed

text \<open>The armed case on the 240 x 320 panel: after the batch \<open>RAMWR, CASET\<close> the two
  data bytes \<open>00 10\<close> are one pixel, written to cell 0.\<close>

lemma armed_prefix_example:
  "ram_write (process_command demo_chip [CMD_RAMWR, CMD_CASET]) \<and>
   fb_cells (chip_spi_done
      (chip_pin_change (process_command demo_chip [CMD_RAMWR, CMD_CASET]) 2 1 LOW)
      [0x00, 0x10] LOW) 0 = 0xFF000084 \<and>
   active_column (chip_spi_done
      (chip_pin_change (process_command demo_chip [CMD_RAMWR, CMD_CASET]) 2 1 LOW)
      [0x00, 0x10] LOW) = 1"
proof -
  have up: "[0 ..< 1] = [0 :: nat]" by simp
  show ?thesis
    by (simp add: demo_chip_def run_defs chip_pin_change_def chip_spi_done_def
        process_data_def pixel_step_def write_pixel_def target_xy_def in_bounds_def
        advance_cursor_def buffer_write_def sample_def rgb565_to_rgba_def up)
qed

text \<open>C8 as stated fails when the device was armed: the opcode byte of the dropped
  command has cleared \<open>ram_write\<close>.\<close>

theorem short_command_disarms_counterexample:
  "registers (process_command_args (process_command demo_armed [CMD_CASET]) [0x00, 0x10])
     \<noteq> registers demo_armed"
  by (simp add: registers_def demo_armed_def demo_chip_def run_defs)

section \<open>The reset line\<close>

text \<open>The clearing loop issues one write per index, in order; every cell it has written
  holds the colour, and no register changes.\<close>

lemma clear_loop:
  "host_calls (fold (\<lambda>i. buffer_write (of_nat i * 4) c) [0 ..< n] s) =
     host_calls s @ map (\<lambda>i. Buffer_write (of_nat i * 4) c) [0 ..< n] \<and>
   (\<forall>i<n. fb_cells (fold (\<lambda>i. buffer_write (of_nat i * 4) c) [0 ..< n] s)
      (unat (of_nat i * 4 :: u32)) = c) \<and>
   registers (fold (\<lambda>i. buffer_write (of_nat i * 4) c) [0 ..< n] s) = registers s"
proof (induction n)
  case 0
  then show ?case by simp
next
  case (Suc n)
  then show ?case
    by (auto simp: buffer_write_def registers_def less_Suc_eq)
qed

lemma reset_edge_state:
  assumes "pin = rst_pin s" "pin \<noteq> cs_pin s" "pin \<noteq> dc_pin s" "framebuffer s \<noteq> 0"
  shows "chip_pin_change s pin LOW cs_level = clear_framebuffer (chip_reset (host Spi_stop s))"
  using assms by (simp add: chip_pin_change_def Let_def chip_reset_def host_def)

lemma chip_reset_fields:
  "registers (chip_reset s) =
     (mode s, False, 0, 0, 0, (if 0 < width s \<and> 0 < height s then width s - 1 else 127),
      0, (if 0 < width s \<and> 0 < height s then height s - 1 else 127), 0)"
  "host_calls (chip_reset s) = host_calls s"
  "fb_cells (chip_reset s) = fb_cells s"
  "width (chip_reset s) = width s"
  "height (chip_reset s) = height s"
  by (simp_all add: chip_reset_def registers_def Let_def)

text \<open>C9 (amended). On a device whose three pins are distinct, with a bound framebuffer
  of non-zero width and height whose byte size fits the 32-bit offset range, a falling
  edge of the reset line issues \<open>spi_stop\<close>, then one whole-cell write of opaque black
  \<open>0xFF000000\<close> per pixel, in index order; afterwards every cell is opaque black, the
  window is the full framebuffer extent, the cursors and the scanning direction are 0 and
  \<open>ram_write\<close> is false: the registers are those of \<open>chip_init\<close>, except that
  \<open>mode\<close> keeps the value it had before the edge.\<close>

theorem reset_line_falling_edge:
  assumes "pin = rst_pin s" "pin \<noteq> cs_pin s" "pin \<noteq> dc_pin s" "framebuffer s \<noteq> 0"
    and "0 < unat (width s)" "0 < unat (height s)"
    and "4 * (unat (width s) * unat (height s)) \<le> 2 ^ 32"
  shows "let s' = chip_pin_change s pin LOW cs_level;
             n = unat (width s) * unat (height s)
         in host_calls s' =
              host_calls s @ Spi_stop # map (\<lambda>i. Buffer_write (of_nat (4 * i)) 0xff000000) [0 ..< n] \<and>
            (\<forall>i<n. fb_cells s' (4 * i) = 0xff000000) \<and>
            column_start s' = 0 \<and> column_end s' = width s - 1 \<and>
            page_start s' = 0 \<and> page_end s' = height s - 1 \<and>
            active_column s' = 0 \<and> active_page s' = 0 \<and>
            scanning_direction s' = 0 \<and> \<not> ram_write s' \<and> mode s' = mode s \<and>
            registers s' =
              registers ((chip_init (cs_pin s) (dc_pin s) (rst_pin s) (framebuffer s)
                            (width s) (height s) cells)\<lparr>mode := mode s\<rparr>)"
proof -
  let ?n = "unat (width s) * unat (height s)"
  let ?r = "chip_reset (host Spi_stop s)"
  have "?n < 2 ^ LENGTH(32)" using assms(7) by (simp add: mult.commute)
  then have "unat (width s * height s) = ?n"
    by (rule unat_mult_lem[THEN iffD1])
  then have n: "unat (width ?r * height ?r) = ?n"
    by (simp add: chip_reset_fields host_def)
  have off: "unat (of_nat i * 4 :: u32) = 4 * i" if "i < ?n" for i
  proof -
    have "4 * i < 2 ^ 32" using that assms(7) by (simp add: mult.commute)
    then have "unat (of_nat (4 * i) :: u32) = 4 * i"
      by (intro of_nat_inverse[OF refl]) simp
    then show ?thesis by (simp add: mult.commute)
  qed
  have pos: "0 < width s \<and> 0 < height s"
    using assms(5,6) by (simp add: word_less_nat_alt)
  note cl = clear_loop[of "0xff000000" ?n ?r]
  have st: "chip_pin_change s pin LOW cs_level =
      fold (\<lambda>i. buffer_write (of_nat i * 4) 0xff000000) [0 ..< ?n] ?r"
    unfolding reset_edge_state[OF assms(1-4)] clear_framebuffer_def n ..
  have calls: "host_calls (chip_pin_change s pin LOW cs_level) =
      host_calls s @ Spi_stop # map (\<lambda>i. Buffer_write (of_nat (4 * i)) 0xff000000) [0 ..< ?n]"
    unfolding st using cl by (simp add: chip_reset_fields host_def mult.commute)
  have cells: "\<forall>i<?n. fb_cells (chip_pin_change s pin LOW cs_level) (4 * i) = 0xff000000"
    unfolding st using cl off by metis
  have regs: "registers (chip_pin_change s pin LOW cs_level) =
      (mode s, False, 0, 0, 0, width s - 1, 0, height s - 1, 0)"
    unfolding st using cl pos by (simp add: chip_reset_fields host_def)
  have init: "registers ((chip_init (cs_pin s) (dc_pin s) (rst_pin s) (framebuffer s)
                            (width s) (height s) cells)\<lparr>mode := mode s\<rparr>) =
      (mode s, False, 0, 0, 0, width s - 1, 0, height s - 1, 0)"
    using pos by (simp add: chip_init_def chip_reset_def registers_def)
  show ?thesis
    using calls cells regs init by (simp add: Let_def registers_def)
qed

lemma tiny_data_fields:
  "rst_pin tiny_data = 3" "cs_pin tiny_data = 1" "dc_pin tiny_data = 2"
  "framebuffer tiny_data = 7" "width tiny_data = 2" "height tiny_data = 2"
  "mode tiny_data = MODE_DATA" "host_calls tiny_data = [Spi_stop]"
  by (simp_all add: tiny_data_def tiny_chip_def chip_pin_change_def chip_init_def
      chip_reset_def host_def Let_def)

theorem reset_line_falling_edge_witness:
  "3 = rst_pin tiny_data \<and> 3 \<noteq> cs_pin tiny_data \<and> 3 \<noteq> dc_pin tiny_data \<and>
   framebuffer tiny_data \<noteq> 0 \<and> 0 < unat (width tiny_data) \<and> 0 < unat (height tiny_data) \<and>
   4 * (unat (width tiny_data) * unat (height tiny_data)) \<le> (2 :: nat) ^ 32 \<and>
   host_calls (chip_pin_change tiny_data 3 LOW 1) =
     [Spi_stop, Spi_stop, Buffer_write 0 0xff000000, Buffer_write 4 0xff000000,
      Buffer_write 8 0xff000000, Buffer_write 12 0xff000000] \<and>
   fb_cells (chip_pin_change tiny_data 3 LOW 1) 12 = 0xff000000 \<and>
   column_end (chip_pin_change tiny_data 3 LOW 1) = 1 \<and>
   page_end (chip_pin_change tiny_data 3 LOW 1) = 1 \<and>
   mode (chip_pin_change tiny_data 3 LOW 1) = MODE_DATA"
proof -
  have h: "3 = rst_pin tiny_data" "3 \<noteq> cs_pin tiny_data" "3 \<noteq> dc_pin tiny_data"
    "framebuffer tiny_data \<noteq> 0" "0 < unat (width tiny_data)" "0 < unat (height tiny_data)"
    "4 * (unat (width tiny_data) * unat (height tiny_data)) \<le> (2 :: nat) ^ 32"
    by (simp_all add: tiny_data_fields)
  have n: "unat (width tiny_data) * unat (height tiny_data) = 4"
    by (simp add: tiny_data_fields)
  have up: "[0 ..< 4] = [0, 1, 2, 3 :: nat]"
    by (simp add: upt_rec)
  note t = reset_line_falling_edge[OF h, of 1 blank_cells, unfolded Let_def n]
  from t have a: "\<forall>i<4. fb_cells (chip_pin_change tiny_data 3 LOW 1) (4 * i) = 0xff000000"
    by (elim conjE)
  from a[rule_format, of 3] have c: "fb_cells (chip_pin_change tiny_data 3 LOW 1) 12 = 0xff000000"
    by simp
  from t c show ?thesis
    by (simp add: tiny_data_fields up)
qed

text \<open>C9 as stated fails for \<open>mode\<close>: \<open>chip_reset\<close> does not touch it, so a device
  in data mode stays in data mode, while \<open>chip_init\<close> starts in command mode.\<close>

theorem reset_keeps_mode_counterexample:
  "mode (chip_pin_change tiny_data (rst_pin tiny_data) LOW 1) = MODE_DATA \<and>
   mode (chip_init 1 2 3 7 2 2 blank_cells) = MODE_COMMAND"
proof -
  have up: "[0 ..< 4] = [0, 1, 2, 3 :: nat]"
    by (simp add: upt_rec)
  show ?thesis
    by (simp add: tiny_data_fields chip_pin_change_def chip_init_def chip_reset_def
      clear_framebuffer_def buffer_write_def host_def Let_def up)
qed

section \<open>The pixel writer\<close>

subsection \<open>The batch as a list of samples\<close>

lemma length_samples: "length (samples buf) = length buf div 2"
  by (induction buf rule: samples.induct) simp_all

lemma samples_eq_map: "map (sample buf) [0 ..< length buf div 2] = samples buf"
proof (induction buf rule: samples.induct)
  case (1 hi lo rest)
  have "[0 ..< length (hi # lo # rest) div 2] = 0 # map Suc [0 ..< length rest div 2]"
    by (simp add: upt_conv_Cons map_Suc_upt del: upt_Suc)
  moreover have "sample (hi # lo # rest) (Suc i) = sample rest i" for i
    by (simp add: sample_def)
  moreover have "sample (hi # lo # rest) 0 = push_bit 8 (ucast hi) OR ucast lo"
    by (simp add: sample_def)
  ultimately show ?case using 1 by (simp add: comp_def)
qed simp_all

lemma process_data_samples: "process_data s buf = fold sample_step (samples buf) s"
proof (cases "length buf < 2")
  case True
  then have "samples buf = []"
    by (cases buf rule: samples.cases) simp_all
  then show ?thesis using True by (simp add: process_data_def)
next
  case False
  have "pixel_step buf = sample_step \<circ> sample buf"
    by (intro ext) (simp add: pixel_step_def sample_step_def)
  then have "fold (pixel_step buf) [0 ..< length buf div 2] s =
      fold sample_step (map (sample buf) [0 ..< length buf div 2]) s"
    by (simp add: fold_map)
  then show ?thesis using False by (simp add: process_data_def samples_eq_map)
qed

lemma samples_append:
  "even (length a) \<Longrightarrow> samples (a @ b) = samples a @ samples b"
  by (induction a rule: samples.induct) simp_all

lemma samples_nth:
  "i < length buf div 2 \<Longrightarrow> samples buf ! i = sample buf i"
  using samples_eq_map[of buf, symmetric] by simp

subsection \<open>Signed reading of the coordinates\<close>

lemma uint_lt_2p31:
  fixes w :: u32
  shows "(uint w < 2 ^ 31) = (unat w < 2 ^ 31)"
proof
  assume "uint w < 2 ^ 31"
  then have "int (unat w) < int (2 ^ 31)" by simp
  then show "unat w < 2 ^ 31" by (rule iffD1[OF of_nat_less_iff])
next
  assume "unat w < 2 ^ 31"
  then have "int (unat w) < int (2 ^ 31)" by (rule iffD2[OF of_nat_less_iff])
  then show "uint w < 2 ^ 31" by simp
qed

lemma uint_less_unat:
  fixes x w :: u32
  shows "(uint x < uint w) = (unat x < unat w)"
  by (simp add: word_less_nat_alt[symmetric] word_less_def)

lemma sint_nonneg_unat:
  fixes w :: u32
  assumes "0 \<le> sint w"
  shows "sint w = int (unat w)" and "unat w < 2 ^ 31"
proof -
  have lt: "sint w < 2 ^ 31" using sint_less[of w] by simp
  have "uint w = take_bit 32 (sint w)" using uint_sint[of w] by simp
  also have "\<dots> = sint w"
    using assms lt by (simp add: take_bit_int_eq_self)
  finally have u: "uint w = sint w" .
  then show "sint w = int (unat w)" by simp
  from u lt have "uint w < 2 ^ 31" by simp
  then show "unat w < 2 ^ 31" by (simp only: uint_lt_2p31)
qed

lemma sint_small:
  fixes w :: u32
  assumes "unat w < 2 ^ 31"
  shows "sint w = int (unat w)"
proof -
  have "sint w = signed_take_bit 31 (uint w)" using sint_uint[of w] by simp
  also have "\<dots> = uint w"
  proof (rule signed_take_bit_int_eq_self)
    show "- (2 ^ 31) \<le> uint w" by (rule order_trans[of _ 0]) simp_all
    show "uint w < 2 ^ 31" using assms by (simp only: uint_lt_2p31)
  qed
  finally show ?thesis by simp
qed

lemma in_bounds_unat:
  assumes "in_bounds s (x, y)"
  shows "unat x < unat (width s)" "unat y < unat (height s)"
    "unat (width s) < 2 ^ 31" "unat (height s) < 2 ^ 31"
proof -
  from assms have x: "0 \<le> sint x" "sint x < sint (width s)"
    and y: "0 \<le> sint y" "sint y < sint (height s)"
    by (simp_all add: in_bounds_def)
  have w: "0 \<le> sint (width s)" and h: "0 \<le> sint (height s)" using x y by simp_all
  show "unat x < unat (width s)"
    using x sint_nonneg_unat(1)[OF x(1)] sint_nonneg_unat(1)[OF w] by (simp add: uint_less_unat)
  show "unat y < unat (height s)"
    using y sint_nonneg_unat(1)[OF y(1)] sint_nonneg_unat(1)[OF h] by (simp add: uint_less_unat)
  show "unat (width s) < 2 ^ 31" by (rule sint_nonneg_unat(2)[OF w])
  show "unat (height s) < 2 ^ 31" by (rule sint_nonneg_unat(2)[OF h])
qed

lemma cell_index_in_range:
  fixes x y w h :: u32
  assumes "unat x < unat w" "unat y < unat h"
  shows "unat (y * w + x) < unat w * unat h"
proof -
  have "unat (y * w + x) \<le> unat (y * w) + unat x"
    by (simp add: unat_word_ariths)
  also have "\<dots> \<le> unat y * unat w + unat x"
    by (simp add: unat_word_ariths)
  also have "\<dots> < unat y * unat w + unat w" using assms(1) by simp
  also have "\<dots> = (unat y + 1) * unat w" by simp
  also have "\<dots> \<le> unat h * unat w"
    using assms(2) by (intro mult_le_mono1) simp
  finally show ?thesis by (simp add: mult.commute)
qed

subsection \<open>What one sample changes\<close>

lemma write_pixel_frame:
  "registers (write_pixel v s) = registers s"
  "width (write_pixel v s) = width s"
  "height (write_pixel v s) = height s"
  by (simp_all add: write_pixel_def buffer_write_def registers_def Let_def split: prod.split)

lemma write_pixel_calls:
  "host_calls (write_pixel v s) =
     host_calls s @
       (if in_bounds s (target_xy s)
        then [Buffer_write ((snd (target_xy s) * width s + fst (target_xy s)) * 4) (rgb565_to_rgba v)]
        else [])"
  by (simp add: write_pixel_def buffer_write_def Let_def split: prod.split)

lemma write_pixel_skip:
  "\<not> in_bounds s (target_xy s) \<Longrightarrow> write_pixel v s = s"
  by (cases "target_xy s") (simp add: write_pixel_def)

lemma advance_cursor_frame:
  "host_calls (advance_cursor s) = host_calls s"
  "fb_cells (advance_cursor s) = fb_cells s"
  "width (advance_cursor s) = width s"
  "height (advance_cursor s) = height s"
  by (simp_all add: advance_cursor_def Let_def)

lemma advance_cursor_cong:
  "registers a = registers b \<Longrightarrow> registers (advance_cursor a) = registers (advance_cursor b)"
  by (simp add: advance_cursor_def registers_def Let_def)

lemma advance_funpow_cong:
  "registers a = registers b \<Longrightarrow>
   registers ((advance_cursor ^^ n) a) = registers ((advance_cursor ^^ n) b)"
proof (induction n)
  case 0
  then show ?case by simp
next
  case (Suc n)
  have "registers (advance_cursor ((advance_cursor ^^ n) a)) =
      registers (advance_cursor ((advance_cursor ^^ n) b))"
    by (rule advance_cursor_cong) (rule Suc.IH[OF Suc.prems])
  then show ?case by simp
qed

lemma sample_step_frame:
  "width (sample_step v s) = width s" "height (sample_step v s) = height s"
  by (simp_all add: sample_step_def advance_cursor_frame write_pixel_frame)

lemma stream_registers:
  "registers (fold sample_step vs s) = registers ((advance_cursor ^^ length vs) s)"
proof (induction vs arbitrary: s)
  case Nil
  then show ?case by simp
next
  case (Cons v vs)
  have "registers (sample_step v s) = registers (advance_cursor s)"
    unfolding sample_step_def by (rule advance_cursor_cong) (rule write_pixel_frame)
  then have "registers ((advance_cursor ^^ length vs) (sample_step v s)) =
      registers ((advance_cursor ^^ length vs) (advance_cursor s))"
    by (rule advance_funpow_cong)
  then show ?case using Cons.IH[of "sample_step v s"] by (simp add: funpow_swap1)
qed

lemma write_in_bounds_extent:
  "width t = width s \<Longrightarrow> height t = height s \<Longrightarrow> write_in_bounds t = write_in_bounds s"
  by (intro ext) (simp add: write_in_bounds_def)

lemma write_pixel_in_bounds:
  assumes "in_bounds s (target_xy s)"
  shows "write_in_bounds s
    (Buffer_write ((snd (target_xy s) * width s + fst (target_xy s)) * 4) c)"
proof -
  from assms have ib: "in_bounds s (fst (target_xy s), snd (target_xy s))" by simp
  note b = in_bounds_unat(1,2)[OF ib]
  show ?thesis
    unfolding write_in_bounds_def
    using b cell_index_in_range[OF b] by blast
qed

lemma sample_step_calls:
  "\<exists>w. host_calls (sample_step v s) = host_calls s @ w \<and> list_all (write_in_bounds s) w"
proof (cases "in_bounds s (target_xy s)")
  case True
  let ?c = "Buffer_write ((snd (target_xy s) * width s + fst (target_xy s)) * 4)
              (rgb565_to_rgba v)"
  have "host_calls (sample_step v s) = host_calls s @ [?c]"
    unfolding sample_step_def advance_cursor_frame write_pixel_calls using True by simp
  moreover have "list_all (write_in_bounds s) [?c]"
    using write_pixel_in_bounds[OF True] by simp
  ultimately show ?thesis by blast
next
  case False
  have "host_calls (sample_step v s) = host_calls s @ []"
    unfolding sample_step_def advance_cursor_frame write_pixel_calls using False by simp
  moreover have "list_all (write_in_bounds s) []" by simp
  ultimately show ?thesis by blast
qed

lemma stream_calls:
  "\<exists>ws. host_calls (fold sample_step vs s) = host_calls s @ ws \<and>
     list_all (write_in_bounds s) ws"
proof (induction vs arbitrary: s)
  case Nil
  then show ?case by simp
next
  case (Cons v vs)
  let ?t = "sample_step v s"
  have same: "write_in_bounds ?t = write_in_bounds s"
    by (rule write_in_bounds_extent) (rule sample_step_frame)+
  obtain w where w: "host_calls ?t = host_calls s @ w" "list_all (write_in_bounds s) w"
    using sample_step_calls[of v s] by blast
  obtain ws where ws: "host_calls (fold sample_step vs ?t) = host_calls ?t @ ws"
    "list_all (write_in_bounds s) ws"
    using Cons.IH[of ?t] unfolding same by blast
  have "host_calls (fold sample_step (v # vs) s) = host_calls s @ (w @ ws)"
    using w(1) ws(1) by simp
  moreover have "list_all (write_in_bounds s) (w @ ws)"
    using w(2) ws(2) by simp
  ultimately show ?case by blast
qed

lemma process_data_Cons2:
  "process_data s (hi # lo # rest) =
     process_data (sample_step (push_bit 8 (ucast hi) OR ucast lo) s) rest"
  by (simp add: process_data_samples)

subsection \<open>Out-of-bounds targets\<close>

text \<open>C10. For every batch, (1) the host calls issued by \<open>process_data\<close> are cell
  writes at byte offset \<open>4 * (y * width + x)\<close> with \<open>x < width\<close> and \<open>y < height\<close>,
  so at a cell index below \<open>width * height\<close>; (2) the registers after the batch are
  those reached by advancing the cursor once per complete sample, whatever the bounds
  test said for each sample; (3) a sample whose transformed coordinate is out of bounds
  only advances the cursor, and the rest of the batch is processed from there.\<close>

theorem out_of_bounds_pixels_skipped:
  "(\<exists>ws. host_calls (process_data s buf) = host_calls s @ ws \<and>
     (\<forall>c\<in>set ws. \<exists>x y v. c = Buffer_write ((y * width s + x) * 4) v \<and>
        unat x < unat (width s) \<and> unat y < unat (height s) \<and>
        unat (y * width s + x) < unat (width s) * unat (height s))) \<and>
   registers (process_data s buf) = registers ((advance_cursor ^^ (length buf div 2)) s) \<and>
   (\<not> in_bounds s (target_xy s) \<longrightarrow>
      process_data s (hi # lo # rest) = process_data (advance_cursor s) rest)"
proof (intro conjI impI)
  obtain ws where ws: "host_calls (fold sample_step (samples buf) s) = host_calls s @ ws"
    "list_all (write_in_bounds s) ws"
    using stream_calls[of "samples buf" s] by blast
  from ws(2) have "\<forall>c\<in>set ws. \<exists>x y v. c = Buffer_write ((y * width s + x) * 4) v \<and>
        unat x < unat (width s) \<and> unat y < unat (height s) \<and>
        unat (y * width s + x) < unat (width s) * unat (height s)"
    unfolding list_all_iff write_in_bounds_def .
  with ws(1) show "\<exists>ws. host_calls (process_data s buf) = host_calls s @ ws \<and>
     (\<forall>c\<in>set ws. \<exists>x y v. c = Buffer_write ((y * width s + x) * 4) v \<and>
        unat x < unat (width s) \<and> unat y < unat (height s) \<and>
        unat (y * width s + x) < unat (width s) * unat (height s))"
    unfolding process_data_samples by blast
next
  show "registers (process_data s buf) = registers ((advance_cursor ^^ (length buf div 2)) s)"
    using stream_registers[of "samples buf" s]
    by (simp add: process_data_samples length_samples)
next
  assume "\<not> in_bounds s (target_xy s)"
  then show "process_data s (hi # lo # rest) = process_data (advance_cursor s) rest"
    by (simp add: process_data_Cons2 sample_step_def write_pixel_skip)
qed

lemma tiny_wide_fields:
  "width tiny_wide = 2" "height tiny_wide = 2" "scanning_direction tiny_wide = 0"
  "active_column tiny_wide = 2" "active_page tiny_wide = 0"
  "column_start tiny_wide = 2" "column_end tiny_wide = 5"
  "page_start tiny_wide = 0" "page_end tiny_wide = 1" "host_calls tiny_wide = []"
  by (simp_all add: tiny_wide_def tiny_chip_def run_defs)

theorem out_of_bounds_pixels_skipped_witness:
  "\<not> in_bounds tiny_wide (target_xy tiny_wide) \<and>
   process_data tiny_wide [0xF8, 0x00, 0x07, 0xE0] =
     process_data (advance_cursor tiny_wide) [0x07, 0xE0] \<and>
   host_calls (process_data tiny_wide [0xF8, 0x00, 0x07, 0xE0]) = [] \<and>
   active_column (process_data tiny_wide [0xF8, 0x00, 0x07, 0xE0]) = 4"
proof -
  have ob: "\<not> in_bounds tiny_wide (target_xy tiny_wide)"
    by (simp add: in_bounds_def target_xy_def flag_def tiny_wide_fields)
  note t = out_of_bounds_pixels_skipped[of tiny_wide "[0xF8, 0x00, 0x07, 0xE0]" "0xF8" "0x00"
      "[0x07, 0xE0]"]
  from t ob have step: "process_data tiny_wide [0xF8, 0x00, 0x07, 0xE0] =
     process_data (advance_cursor tiny_wide) [0x07, 0xE0]"
    by blast
  have adv: "advance_cursor tiny_wide = tiny_wide\<lparr>active_column := 3\<rparr>"
    by (simp add: advance_cursor_def flag_def tiny_wide_fields Let_def)
  have adv2: "advance_cursor (tiny_wide\<lparr>active_column := 3\<rparr>) = tiny_wide\<lparr>active_column := 4\<rparr>"
    by (simp add: advance_cursor_def flag_def tiny_wide_fields Let_def)
  have ob2: "\<not> in_bounds (tiny_wide\<lparr>active_column := 3\<rparr>)
      (target_xy (tiny_wide\<lparr>active_column := 3\<rparr>))"
    by (simp add: in_bounds_def target_xy_def flag_def tiny_wide_fields)
  have fin: "process_data (tiny_wide\<lparr>active_column := 3\<rparr>) [0x07, 0xE0] =
      tiny_wide\<lparr>active_column := 4\<rparr>"
    using ob2 by (simp add: process_data_samples sample_step_def write_pixel_skip adv2)
  show ?thesis using ob step fin by (simp add: adv tiny_wide_fields)
qed

subsection \<open>Cursor advancement\<close>

lemma incr_within:
  fixes x e :: u32
  assumes "x \<le> e" "e < 0xFFFFFFFF"
  shows "(e < x + 1) = (\<not> x < e)" and "x < e \<Longrightarrow> x + 1 \<le> e" and "b \<le> x \<Longrightarrow> b \<le> x + 1"
proof -
  have "unat x < unat (0xFFFFFFFF :: u32)"
    using assms by (simp add: word_le_nat_alt word_less_nat_alt)
  then have u: "unat (x + 1) = unat x + 1" by (rule unat_plus1_lt)
  show "(e < x + 1) = (\<not> x < e)"
    using assms(1) by (auto simp: word_le_nat_alt word_less_nat_alt u)
  show "x < e \<Longrightarrow> x + 1 \<le> e"
    by (simp add: word_le_nat_alt word_less_nat_alt u)
  show "b \<le> x \<Longrightarrow> b \<le> x + 1"
    by (simp add: word_le_nat_alt u)
qed

lemma advance_cursor_window:
  "column_start (advance_cursor s) = column_start s"
  "column_end (advance_cursor s) = column_end s"
  "page_start (advance_cursor s) = page_start s"
  "page_end (advance_cursor s) = page_end s"
  "scanning_direction (advance_cursor s) = scanning_direction s"
  by (simp_all add: advance_cursor_def Let_def)

lemma advance_cursor_step:
  assumes "cursor_in_window s" "column_end s < 0xFFFFFFFF" "page_end s < 0xFFFFFFFF"
  shows "active_column (advance_cursor s) =
           (if flag (scanning_direction s) SCAN_MV then
              (if active_page s < page_end s then active_column s
               else if active_column s < column_end s then active_column s + 1
               else column_start s)
            else
              (if active_column s < column_end s then active_column s + 1
               else column_start s))"
    and "active_page (advance_cursor s) =
           (if flag (scanning_direction s) SCAN_MV then
              (if active_page s < page_end s then active_page s + 1 else page_start s)
            else
              (if active_column s < column_end s then active_page s
               else if active_page s < page_end s then active_page s + 1
               else page_start s))"
proof -
  from assms(1) have c: "active_column s \<le> column_end s" and p: "active_page s \<le> page_end s"
    by (simp_all add: cursor_in_window_def)
  note ic = incr_within(1)[OF c assms(2)]
  note ip = incr_within(1)[OF p assms(3)]
  show "active_column (advance_cursor s) =
           (if flag (scanning_direction s) SCAN_MV then
              (if active_page s < page_end s then active_column s
               else if active_column s < column_end s then active_column s + 1
               else column_start s)
            else
              (if active_column s < column_end s then active_column s + 1
               else column_start s))"
    by (simp add: advance_cursor_def Let_def ic ip)
  show "active_page (advance_cursor s) =
           (if flag (scanning_direction s) SCAN_MV then
              (if active_page s < page_end s then active_page s + 1 else page_start s)
            else
              (if active_column s < column_end s then active_page s
               else if active_page s < page_end s then active_page s + 1
               else page_start s))"
    by (simp add: advance_cursor_def Let_def ic ip)
qed

lemma advance_cursor_in_window:
  assumes "cursor_in_window s" "column_end s < 0xFFFFFFFF" "page_end s < 0xFFFFFFFF"
  shows "cursor_in_window (advance_cursor s)"
proof -
  from assms(1) have c: "active_column s \<le> column_end s" and p: "active_page s \<le> page_end s"
    and cs: "column_start s \<le> active_column s" and ps: "page_start s \<le> active_page s"
    by (simp_all add: cursor_in_window_def)
  have ce: "column_start s \<le> column_end s" and pe: "page_start s \<le> page_end s"
    using c p cs ps by auto
  note ic = incr_within(2,3)[OF c assms(2)]
  note ip = incr_within(2,3)[OF p assms(3)]
  show ?thesis
    unfolding cursor_in_window_def advance_cursor_window
      advance_cursor_step[OF assms]
    using c p cs ps ce pe ic ip by auto
qed

lemma registers_eqD:
  assumes "registers a = registers b"
  shows "active_column a = active_column b" "active_page a = active_page b"
    "column_start a = column_start b" "column_end a = column_end b"
    "page_start a = page_start b" "page_end a = page_end b"
    "scanning_direction a = scanning_direction b"
    "mode a = mode b" "ram_write a = ram_write b"
  using assms by (simp_all add: registers_def)

lemma cursor_in_window_cong:
  "registers a = registers b \<Longrightarrow> cursor_in_window a = cursor_in_window b"
  by (simp add: cursor_in_window_def registers_def)

lemma sample_step_registers:
  "registers (sample_step v s) = registers (advance_cursor s)"
  unfolding sample_step_def by (rule advance_cursor_cong) (rule write_pixel_frame)

lemma sample_step_in_window:
  assumes "cursor_in_window s" "column_end s < 0xFFFFFFFF" "page_end s < 0xFFFFFFFF"
  shows "cursor_in_window (sample_step v s)"
    and "column_start (sample_step v s) = column_start s"
    and "column_end (sample_step v s) = column_end s"
    and "page_start (sample_step v s) = page_start s"
    and "page_end (sample_step v s) = page_end s"
proof -
  note r = sample_step_registers[of v s]
  show "cursor_in_window (sample_step v s)"
    unfolding cursor_in_window_cong[OF r] by (rule advance_cursor_in_window[OF assms])
  show "column_start (sample_step v s) = column_start s"
    "column_end (sample_step v s) = column_end s"
    "page_start (sample_step v s) = page_start s"
    "page_end (sample_step v s) = page_end s"
    unfolding registers_eqD[OF r] advance_cursor_window by (rule refl)+
qed

lemma stream_in_window:
  assumes "cursor_in_window s" "column_end s < 0xFFFFFFFF" "page_end s < 0xFFFFFFFF"
  shows "cursor_in_window (fold sample_step vs s) \<and>
         column_start (fold sample_step vs s) = column_start s \<and>
         column_end (fold sample_step vs s) = column_end s \<and>
         page_start (fold sample_step vs s) = page_start s \<and>
         page_end (fold sample_step vs s) = page_end s"
  using assms
proof (induction vs arbitrary: s)
  case Nil
  then show ?case by simp
next
  case (Cons v vs)
  note st = sample_step_in_window[OF Cons.prems, of v]
  have "cursor_in_window (sample_step v s)" by (rule st(1))
  moreover have "column_end (sample_step v s) < 0xFFFFFFFF"
    unfolding st(3) by (rule Cons.prems(2))
  moreover have "page_end (sample_step v s) < 0xFFFFFFFF"
    unfolding st(5) by (rule Cons.prems(3))
  ultimately have "cursor_in_window (fold sample_step vs (sample_step v s)) \<and>
         column_start (fold sample_step vs (sample_step v s)) = column_start (sample_step v s) \<and>
         column_end (fold sample_step vs (sample_step v s)) = column_end (sample_step v s) \<and>
         page_start (fold sample_step vs (sample_step v s)) = page_start (sample_step v s) \<and>
         page_end (fold sample_step vs (sample_step v s)) = page_end (sample_step v s)"
    by (rule Cons.IH)
  then show ?case unfolding st(2-5) by simp
qed

text \<open>The window ends the chip can hold are below \<open>UINT32_MAX\<close>: a reset stores
  \<open>width - 1\<close>, \<open>height - 1\<close> or 127, a window-set a 16-bit value, and no other
  command changes them.\<close>

lemma pred_below_max:
  fixes w :: u32
  assumes "0 < w"
  shows "w - 1 < 0xFFFFFFFF"
proof -
  have nz: "w \<noteq> 0" using assms by auto
  have "unat (w - 1) = unat w - 1" by (rule unat_minus_one[OF nz])
  moreover have "unat w < 2 ^ 32" using unsigned_less[of w] by simp
  ultimately show ?thesis by (simp add: word_less_nat_alt)
qed

lemma chip_reset_ends:
  "column_end (chip_reset s) < 0xFFFFFFFF \<and> page_end (chip_reset s) < 0xFFFFFFFF"
  by (simp add: chip_reset_def Let_def pred_below_max)

lemma ucast16_le:
  "(ucast (x :: u16) :: u32) \<le> 0xFFFF"
proof -
  have "unat (ucast x :: u32) = take_bit 32 (unat x)"
    using unsigned_ucast_eq[of x, where 'a = nat and 'c = 32] by simp
  moreover have "take_bit 32 (unat x) \<le> unat x"
    by (rule take_bit_nat_less_eq_self)
  moreover have "unat x < 2 ^ 16" using unsigned_less[of x] by simp
  ultimately have "unat (ucast x :: u32) < 2 ^ 16" by linarith
  then show ?thesis by (simp add: word_le_nat_alt)
qed

lemma sub32_le:
  fixes v :: u32
  assumes "v \<le> 0xFFFF"
  shows "v - 32 \<le> 0xFFFF \<or> v < 32"
proof (cases "v < 32")
  case False
  then have "32 \<le> v" by simp
  then have "unat (v - 32) = unat v - 32"
    by (simp add: unat_sub)
  moreover have "unat v - 32 \<le> unat v" by simp
  moreover have "unat v \<le> 65535" using assms by (simp add: word_le_nat_alt)
  ultimately have "unat (v - 32) \<le> 65535" by linarith
  then show ?thesis by (simp add: word_le_nat_alt)
qed simp

lemma set_window_ends:
  assumes "column_end s < 0xFFFFFFFF" "page_end s < 0xFFFFFFFF"
  shows "column_end (set_window s) < 0xFFFFFFFF \<and> page_end (set_window s) < 0xFFFFFFFF"
proof -
  let ?a2 = "ucast (push_bit 8 (ucast (command_buf s 2)) OR ucast (command_buf s 3) :: u16) :: u32"
  have a: "?a2 \<le> 0xFFFF" by (rule ucast16_le)
  then have a': "?a2 < 0xFFFFFFFF" by (simp add: word_le_nat_alt word_less_nat_alt)
  have "\<not> ?a2 < 32 \<Longrightarrow> ?a2 - 32 \<le> 0xFFFF" using sub32_le[OF a] by blast
  then have b: "32 \<le> ?a2 \<Longrightarrow> ?a2 - 32 < 0xFFFFFFFF"
    by (simp add: word_le_nat_alt word_less_nat_alt)
  show ?thesis
    using assms a' b by (simp add: set_window_def Let_def)
qed

lemma execute_command_ends:
  assumes "column_end s < 0xFFFFFFFF" "page_end s < 0xFFFFFFFF"
  shows "column_end (execute_command s) < 0xFFFFFFFF \<and>
         page_end (execute_command s) < 0xFFFFFFFF"
  using assms set_window_ends[OF assms] chip_reset_ends[of s]
  by (simp add: execute_command_def Let_def host_def)

text \<open>C5 (amended). If the cursor lies inside the addressing window when the stream
  starts (so the window is not empty) and the window ends are below \<open>UINT32_MAX\<close>, as
  they are after a reset and stay under every command, then after every prefix of every
  pixel stream the window is unchanged and the cursor is inside it. One sample advances
  the fast axis (page when the swap bit is set, column when it is clear) by one below its
  end; at the end the fast axis resumes at its start and the slow axis advances by one,
  resuming at its own start from its end.\<close>

theorem cursor_stays_in_window:
  assumes "column_start s \<le> active_column s" "active_column s \<le> column_end s"
    and "page_start s \<le> active_page s" "active_page s \<le> page_end s"
    and "column_end s < 0xFFFFFFFF" "page_end s < 0xFFFFFFFF"
  shows "(\<forall>n. column_start (process_data s (take n buf)) = column_start s \<and>
              column_end (process_data s (take n buf)) = column_end s \<and>
              page_start (process_data s (take n buf)) = page_start s \<and>
              page_end (process_data s (take n buf)) = page_end s \<and>
              column_start s \<le> active_column (process_data s (take n buf)) \<and>
              active_column (process_data s (take n buf)) \<le> column_end s \<and>
              page_start s \<le> active_page (process_data s (take n buf)) \<and>
              active_page (process_data s (take n buf)) \<le> page_end s) \<and>
         active_column (process_data s [hi, lo]) =
           (if flag (scanning_direction s) SCAN_MV then
              (if active_page s < page_end s then active_column s
               else if active_column s < column_end s then active_column s + 1
               else column_start s)
            else
              (if active_column s < column_end s then active_column s + 1
               else column_start s)) \<and>
         active_page (process_data s [hi, lo]) =
           (if flag (scanning_direction s) SCAN_MV then
              (if active_page s < page_end s then active_page s + 1 else page_start s)
            else
              (if active_column s < column_end s then active_page s
               else if active_page s < page_end s then active_page s + 1
               else page_start s))"
proof -
  have w: "cursor_in_window s"
    using assms(1-4) by (simp add: cursor_in_window_def)
  have all: "column_start (process_data s b) = column_start s \<and>
              column_end (process_data s b) = column_end s \<and>
              page_start (process_data s b) = page_start s \<and>
              page_end (process_data s b) = page_end s \<and>
              column_start s \<le> active_column (process_data s b) \<and>
              active_column (process_data s b) \<le> column_end s \<and>
              page_start s \<le> active_page (process_data s b) \<and>
              active_page (process_data s b) \<le> page_end s" for b
    using stream_in_window[OF w assms(5,6), of "samples b"]
    unfolding process_data_samples cursor_in_window_def by (elim conjE) simp
  have one: "process_data s [hi, lo] = sample_step (push_bit 8 (ucast hi) OR ucast lo) s"
    by (simp add: process_data_samples)
  note r = registers_eqD(1,2)[OF sample_step_registers[of "push_bit 8 (ucast hi) OR ucast lo" s]]
  show ?thesis
    unfolding one r advance_cursor_step[OF w assms(5,6)]
    using all by (simp add: one)
qed

lemma tiny_chip_fields:
  "width tiny_chip = 2" "height tiny_chip = 2" "scanning_direction tiny_chip = 0"
  "active_column tiny_chip = 0" "active_page tiny_chip = 0"
  "column_start tiny_chip = 0" "column_end tiny_chip = 1"
  "page_start tiny_chip = 0" "page_end tiny_chip = 1" "host_calls tiny_chip = []"
  "mode tiny_chip = MODE_COMMAND" "ram_write tiny_chip = False"
  by (simp_all add: tiny_chip_def chip_init_def chip_reset_def)

theorem cursor_stays_in_window_witness:
  "column_start tiny_chip \<le> active_column tiny_chip \<and>
   active_column tiny_chip \<le> column_end tiny_chip \<and>
   page_start tiny_chip \<le> active_page tiny_chip \<and>
   active_page tiny_chip \<le> page_end tiny_chip \<and>
   column_end tiny_chip < 0xFFFFFFFF \<and> page_end tiny_chip < 0xFFFFFFFF \<and>
   active_column (process_data tiny_chip [0xF8, 0x00]) = 1 \<and>
   active_page (process_data tiny_chip [0xF8, 0x00]) = 0 \<and>
   active_column (process_data tiny_chip [0xF8, 0x00, 0x07, 0xE0, 0x00, 0x1F]) \<le> 1 \<and>
   active_page (process_data tiny_chip [0xF8, 0x00, 0x07, 0xE0, 0x00, 0x1F]) \<le> 1"
proof -
  have h: "column_start tiny_chip \<le> active_column tiny_chip"
    "active_column tiny_chip \<le> column_end tiny_chip"
    "page_start tiny_chip \<le> active_page tiny_chip"
    "active_page tiny_chip \<le> page_end tiny_chip"
    "column_end tiny_chip < 0xFFFFFFFF" "page_end tiny_chip < 0xFFFFFFFF"
    by (simp_all add: tiny_chip_fields)
  note t = cursor_stays_in_window[OF h, of "[0xF8, 0x00, 0x07, 0xE0, 0x00, 0x1F]" "0xF8" "0x00"]
  from t have one: "active_column (process_data tiny_chip [0xF8, 0x00]) = 1 \<and>
      active_page (process_data tiny_chip [0xF8, 0x00]) = 0"
    by (simp add: tiny_chip_fields flag_def)
  from t have "\<forall>n. active_column (process_data tiny_chip
        (take n [0xF8, 0x00, 0x07, 0xE0, 0x00, 0x1F])) \<le> column_end tiny_chip \<and>
      active_page (process_data tiny_chip
        (take n [0xF8, 0x00, 0x07, 0xE0, 0x00, 0x1F])) \<le> page_end tiny_chip"
    by blast
  from this[rule_format, of 6]
  have all: "active_column (process_data tiny_chip [0xF8, 0x00, 0x07, 0xE0, 0x00, 0x1F]) \<le> 1 \<and>
      active_page (process_data tiny_chip [0xF8, 0x00, 0x07, 0xE0, 0x00, 0x1F]) \<le> 1"
    by (simp add: tiny_chip_fields)
  show ?thesis using one all by (simp add: tiny_chip_fields)
qed

lemma demo_inverted_fields:
  "column_start demo_inverted = 256" "column_end demo_inverted = 16"
  "active_column demo_inverted = 256" "ram_write demo_inverted = True"
  "scanning_direction demo_inverted = 0" "page_start demo_inverted = 0"
  "page_end demo_inverted = 319" "active_page demo_inverted = 0"
  "width demo_inverted = 240" "height demo_inverted = 320"
  by (simp_all add: demo_inverted_def demo_chip_def run_defs)

text \<open>C5 as stated fails: a window-set stores its bounds unvalidated, so the cursor need
  not start inside the window. After \<open>CASET\<close> with start \<open>0x0100\<close> and end \<open>0x0010\<close>
  the cursor column is 256, and after one sample it is again 256, beyond the column end
  16.\<close>

theorem cursor_leaves_inverted_window_counterexample:
  "ram_write demo_inverted \<and>
   active_column (process_data demo_inverted [0xF8, 0x00]) = 256 \<and>
   column_end (process_data demo_inverted [0xF8, 0x00]) = 16 \<and>
   \<not> (column_start (process_data demo_inverted [0xF8, 0x00])
          \<le> active_column (process_data demo_inverted [0xF8, 0x00]) \<and>
        active_column (process_data demo_inverted [0xF8, 0x00])
          \<le> column_end (process_data demo_inverted [0xF8, 0x00]))"
proof -
  have ob: "\<not> in_bounds demo_inverted (target_xy demo_inverted)"
    by (simp add: in_bounds_def target_xy_def flag_def demo_inverted_fields)
  have "process_data demo_inverted [0xF8, 0x00] = advance_cursor demo_inverted"
    using ob by (simp add: process_data_samples sample_step_def write_pixel_skip)
  then show ?thesis
    by (simp add: advance_cursor_def flag_def Let_def demo_inverted_fields)
qed

subsection \<open>The orientation transform\<close>



lemma in_bounds_sint:
  assumes "unat (width s) < 2 ^ 31" "unat (height s) < 2 ^ 31"
  shows "in_bounds s p =
     (0 \<le> sint (fst p) \<and> sint (fst p) < int (unat (width s)) \<and>
      0 \<le> sint (snd p) \<and> sint (snd p) < int (unat (height s)))"
  unfolding in_bounds_def sint_small[OF assms(1)] sint_small[OF assms(2)]
  by (cases p) auto





subsection \<open>Writing a whole frame\<close>

lemma cells_filled_Nil: "cells_filled f f k []"
  by (simp add: cells_filled_def)

lemma cells_filled_one: "cells_filled f (f(4 * k := rgb565_to_rgba v)) k [v]"
  by (simp add: cells_filled_def)

lemma cells_filled_append:
  assumes "cells_filled f g k xs" "cells_filled g h (k + length xs) ys"
  shows "cells_filled f h k (xs @ ys)"
  unfolding cells_filled_def
proof (intro conjI allI impI)
  fix i assume i: "i < length (xs @ ys)"
  show "h (4 * (k + i)) = rgb565_to_rgba ((xs @ ys) ! i)"
  proof (cases "i < length xs")
    case True
    have "\<forall>i'<length ys. 4 * (k + i) \<noteq> 4 * (k + length xs + i')"
      using True by simp
    then have "h (4 * (k + i)) = g (4 * (k + i))"
      using assms(2) unfolding cells_filled_def by blast
    also have "\<dots> = rgb565_to_rgba (xs ! i)"
      using assms(1) True unfolding cells_filled_def by blast
    finally show ?thesis using True by (simp add: nth_append)
  next
    case False
    then have i': "i - length xs < length ys" using i by simp
    have "h (4 * (k + length xs + (i - length xs))) = rgb565_to_rgba (ys ! (i - length xs))"
      using assms(2) i' unfolding cells_filled_def by blast
    moreover have "k + length xs + (i - length xs) = k + i" using False by simp
    ultimately show ?thesis using False by (simp add: nth_append)
  qed
next
  fix j assume j: "\<forall>i<length (xs @ ys). j \<noteq> 4 * (k + i)"
  have a: "\<forall>i<length xs. j \<noteq> 4 * (k + i)"
    using j by simp
  have b: "\<forall>i<length ys. j \<noteq> 4 * (k + length xs + i)"
  proof (intro allI impI)
    fix i assume "i < length ys"
    then have "length xs + i < length (xs @ ys)" by simp
    from j[rule_format, OF this] show "j \<noteq> 4 * (k + length xs + i)"
      by (simp add: add.assoc)
  qed
  have "h j = g j" using assms(2) b unfolding cells_filled_def by blast
  also have "\<dots> = f j" using assms(1) a unfolding cells_filled_def by blast
  finally show "h j = f j" .
qed

lemma Suc_mod_div:
  assumes "0 < W"
  shows "Suc k mod W = (if k mod W < W - 1 then k mod W + 1 else 0)"
    and "Suc k div W = (if k mod W < W - 1 then k div W else k div W + 1)"
proof -
  have lt: "k mod W < W" using assms by simp
  show m: "Suc k mod W = (if k mod W < W - 1 then k mod W + 1 else 0)"
    using lt by (auto simp: mod_Suc)
  show "Suc k div W = (if k mod W < W - 1 then k div W else k div W + 1)"
    using lt m by (auto simp: div_Suc)
qed

text \<open>One sample at the \<open>k\<close>-th cell of a full-frame window: it is written to cell
  \<open>k\<close> (byte offset \<open>4 * k\<close>) and the cursor moves to cell \<open>k + 1\<close>.\<close>

lemma unat_of_nat_small:
  "n < 2 ^ 32 \<Longrightarrow> unat (of_nat n :: u32) = n"
  by (intro of_nat_inverse[OF refl]) simp

lemma frame_step:
  assumes fp: "frame_pos s k"
    and W: "0 < unat (width s)" and H: "0 < unat (height s)"
    and fit: "4 * (unat (width s) * unat (height s)) \<le> 2 ^ 32"
    and k: "k < unat (width s) * unat (height s)"
  shows "frame_pos (sample_step v s) (Suc k)"
    and "fb_cells (sample_step v s) = (fb_cells s)(4 * k := rgb565_to_rgba v)"
proof -
  let ?W = "unat (width s)" and ?H = "unat (height s)"
  let ?col = "k mod ?W" and ?page = "k div ?W"
  have WH: "?W * ?H \<le> 2 ^ 30" using fit by (simp add: mult.commute)
  have Wle: "?W \<le> ?W * ?H" using H by simp
  have Hle: "?H \<le> ?W * ?H" using W by simp
  have W30: "?W \<le> 2 ^ 30" using WH Wle by linarith
  have H30: "?H \<le> 2 ^ 30" using WH Hle by linarith
  have W31: "?W < 2 ^ 31" and H31: "?H < 2 ^ 31" using W30 H30 by simp_all
  have col: "?col < ?W" using W by simp
  have page: "?page < ?H"
    using k by (simp add: less_mult_imp_div_less mult.commute)
  have pm: "?page mod ?H = ?page" using page by simp
  from fp have regs: "column_start s = 0" "column_end s = width s - 1"
    "page_start s = 0" "page_end s = height s - 1" "scanning_direction s = 0"
    and ac: "active_column s = of_nat ?col" and ap: "active_page s = of_nat ?page"
    by (simp_all add: frame_pos_def pm)
  have ucol: "unat (active_column s) = ?col"
    unfolding ac using col W30 by (intro unat_of_nat_small) simp
  have upage: "unat (active_page s) = ?page"
    unfolding ap using page H30 by (intro unat_of_nat_small) simp
  have wnz: "width s \<noteq> 0" and hnz: "height s \<noteq> 0"
    using W H by (simp_all add: unat_gt_0)
  have ucend: "unat (column_end s) = ?W - 1" and upend: "unat (page_end s) = ?H - 1"
    unfolding regs by (simp_all add: unat_minus_one wnz hnz)
  \<comment> \<open>the write\<close>
  have txy: "target_xy s = (active_column s, active_page s)"
    by (simp add: target_xy_def regs flag_def)
  have c31: "unat (active_column s) < 2 ^ 31" and p31: "unat (active_page s) < 2 ^ 31"
    using ucol upage col page W31 H31 by simp_all
  have ib: "in_bounds s (active_column s, active_page s)"
    unfolding in_bounds_sint[OF W31 H31]
    using sint_small[OF c31] sint_small[OF p31] ucol upage col page
    by (simp del: of_nat_unat)
  have kk: "?page * ?W + ?col = k" by simp
  have ww: "(of_nat ?W :: u32) = width s" by simp
  have "(of_nat k :: u32) = of_nat (?page * ?W + ?col)"
    by (simp only: kk)
  also have "\<dots> = of_nat ?page * of_nat ?W + of_nat ?col"
    by (simp only: of_nat_add of_nat_mult)
  finally have e2: "(of_nat k :: u32) = of_nat ?page * width s + of_nat ?col"
    unfolding ww .
  have e3: "(of_nat (4 * k) :: u32) = of_nat k * 4"
    by simp
  have offw: "(active_page s * width s + active_column s) * 4 = (of_nat (4 * k) :: u32)"
    unfolding ac ap e3 e2 ..
  have "4 * k < 2 ^ 32" using k fit by (simp add: mult.commute)
  then have off: "unat ((active_page s * width s + active_column s) * 4) = 4 * k"
    unfolding offw by (rule unat_of_nat_small)
  have wp: "write_pixel v s =
      buffer_write ((active_page s * width s + active_column s) * 4) (rgb565_to_rgba v) s"
    using ib by (simp add: write_pixel_def txy Let_def)
  show "fb_cells (sample_step v s) = (fb_cells s)(4 * k := rgb565_to_rgba v)"
    unfolding sample_step_def advance_cursor_frame wp buffer_write_def off
    by simp
  \<comment> \<open>the advance\<close>
  have cle: "?col \<le> ?W - 1" and ple: "?page \<le> ?H - 1"
    using col page by linarith+
  have win: "cursor_in_window s"
    unfolding cursor_in_window_def word_le_nat_alt ucol upage ucend upend
    using cle ple by (simp add: regs)
  have ce: "column_end s < 0xFFFFFFFF" and pe: "page_end s < 0xFFFFFFFF"
    unfolding regs using wnz hnz by (simp_all add: pred_below_max word_neq_0_conv)
  note r = sample_step_registers[of v s]
  note st = advance_cursor_step[OF win ce pe]
  have clt: "(active_column s < column_end s) = (?col < ?W - 1)"
    by (simp add: word_less_nat_alt ucol ucend)
  have plt: "(active_page s < page_end s) = (?page < ?H - 1)"
    by (simp add: word_less_nat_alt upage upend)
  have nmv: "\<not> flag (scanning_direction s) SCAN_MV"
    by (simp add: regs flag_def)
  have ac': "active_column (sample_step v s) = of_nat (Suc k mod ?W)"
    unfolding registers_eqD(1)[OF r] st(1) clt Suc_mod_div(1)[OF W]
    using nmv by (simp add: ac regs)
  have pS: "(?page + 1) mod ?H = (if ?page < ?H - 1 then ?page + 1 else 0)"
  proof (cases "?page < ?H - 1")
    case True
    then have "?page + 1 < ?H" by linarith
    then show ?thesis using True by simp
  next
    case False
    then have "?page + 1 = ?H" using page by linarith
    then show ?thesis using False by simp
  qed
  have pg: "Suc k div ?W mod ?H =
      (if ?col < ?W - 1 then ?page else if ?page < ?H - 1 then ?page + 1 else 0)"
    unfolding Suc_mod_div(2)[OF W] using pS pm by (simp split: if_splits)
  have ap': "active_page (sample_step v s) = of_nat (Suc k div ?W mod ?H)"
    unfolding registers_eqD(2)[OF r] st(2) clt plt pg
    using nmv by (simp add: ap regs)
  have same: "column_start (sample_step v s) = column_start s"
    "column_end (sample_step v s) = column_end s"
    "page_start (sample_step v s) = page_start s"
    "page_end (sample_step v s) = page_end s"
    "scanning_direction (sample_step v s) = scanning_direction s"
    unfolding registers_eqD[OF r] advance_cursor_window by (rule refl)+
  show "frame_pos (sample_step v s) (Suc k)"
    unfolding frame_pos_def same sample_step_frame
    using regs ac' ap' by simp
qed

lemma sample_step_mode:
  "mode (sample_step v s) = mode s" "ram_write (sample_step v s) = ram_write s"
  unfolding registers_eqD(8,9)[OF sample_step_registers]
  by (simp_all add: advance_cursor_def Let_def)

lemma stream_fill:
  assumes "frame_pos s k"
    and "0 < unat (width s)" "0 < unat (height s)"
    and "4 * (unat (width s) * unat (height s)) \<le> 2 ^ 32"
    and "k + length vs \<le> unat (width s) * unat (height s)"
  shows "frame_pos (fold sample_step vs s) (k + length vs) \<and>
         cells_filled (fb_cells s) (fb_cells (fold sample_step vs s)) k vs \<and>
         width (fold sample_step vs s) = width s \<and>
         height (fold sample_step vs s) = height s \<and>
         mode (fold sample_step vs s) = mode s \<and>
         ram_write (fold sample_step vs s) = ram_write s"
  using assms
proof (induction vs arbitrary: s k)
  case Nil
  then show ?case by (simp add: cells_filled_Nil)
next
  case (Cons v vs)
  let ?t = "sample_step v s"
  have k: "k < unat (width s) * unat (height s)" using Cons.prems(5) by simp
  note st = frame_step[OF Cons.prems(1-4) k, of v]
  have a: "frame_pos ?t (Suc k)" by (rule st(1))
  have b: "0 < unat (width ?t)" "0 < unat (height ?t)"
    "4 * (unat (width ?t) * unat (height ?t)) \<le> 2 ^ 32"
    unfolding sample_step_frame by (rule Cons.prems(2-4))+
  have c: "Suc k + length vs \<le> unat (width ?t) * unat (height ?t)"
    unfolding sample_step_frame using Cons.prems(5) by simp
  note ih = Cons.IH[OF a b c]
  have one: "cells_filled (fb_cells s) (fb_cells ?t) k [v]"
    unfolding st(2) by (rule cells_filled_one)
  have rest: "cells_filled (fb_cells ?t) (fb_cells (fold sample_step vs ?t)) (k + length [v]) vs"
    using ih by simp
  have "cells_filled (fb_cells s) (fb_cells (fold sample_step vs ?t)) k ([v] @ vs)"
    by (rule cells_filled_append[OF one rest])
  then show ?case using ih by (simp add: sample_step_frame sample_step_mode)
qed

lemma chip_spi_done_pixels:
  assumes "mode s = MODE_DATA" "ram_write s"
  shows "fb_cells (chip_spi_done s b cs) = fb_cells (process_data s b)"
    and "registers (chip_spi_done s b cs) = registers (process_data s b)"
    and "width (chip_spi_done s b cs) = width (process_data s b)"
    and "height (chip_spi_done s b cs) = height (process_data s b)"
  using assms
  by (simp_all add: chip_spi_done_def host_def registers_def Let_def process_data_def)

lemma frame_pos_cong:
  "registers a = registers b \<Longrightarrow> width a = width b \<Longrightarrow> height a = height b \<Longrightarrow>
   frame_pos a k = frame_pos b k"
  by (simp add: frame_pos_def registers_def)

lemma batches_fill:
  assumes "frame_pos s k" "mode s = MODE_DATA" "ram_write s"
    and "0 < unat (width s)" "0 < unat (height s)"
    and "4 * (unat (width s) * unat (height s)) \<le> 2 ^ 32"
    and "\<forall>b\<in>set batches. even (length (fst b))"
    and "k + length (samples (concat (map fst batches))) \<le> unat (width s) * unat (height s)"
  shows "cells_filled (fb_cells s)
           (fb_cells (fold (\<lambda>b s. chip_spi_done s (fst b) (snd b)) batches s)) k
           (samples (concat (map fst batches)))"
  using assms
proof (induction batches arbitrary: s k)
  case Nil
  then show ?case by (simp add: cells_filled_Nil)
next
  case (Cons b batches)
  let ?t = "chip_spi_done s (fst b) (snd b)"
  let ?p = "process_data s (fst b)"
  let ?vs = "samples (fst b)"
  let ?rest = "samples (concat (map fst batches))"
  have ev: "even (length (fst b))" using Cons.prems(7) by simp
  have sp: "samples (concat (map fst (b # batches))) = ?vs @ ?rest"
    using ev by (simp add: samples_append)
  have len: "k + length ?vs \<le> unat (width s) * unat (height s)"
    using Cons.prems(8) unfolding sp by simp
  note sf = stream_fill[OF Cons.prems(1,4,5,6) len, folded process_data_samples]
  note cd = chip_spi_done_pixels[OF Cons.prems(2,3), of "fst b" "snd b"]
  have dims: "width ?t = width s" "height ?t = height s"
    unfolding cd using sf by simp_all
  have a: "frame_pos ?t (k + length ?vs)"
    unfolding frame_pos_cong[OF cd(2,3,4)] using sf by simp
  have m: "mode ?t = MODE_DATA" "ram_write ?t"
    unfolding registers_eqD(8,9)[OF cd(2)] using sf Cons.prems(2,3) by simp_all
  have b: "0 < unat (width ?t)" "0 < unat (height ?t)"
    "4 * (unat (width ?t) * unat (height ?t)) \<le> 2 ^ 32"
    unfolding dims by (rule Cons.prems(4-6))+
  have e: "\<forall>b\<in>set batches. even (length (fst b))" using Cons.prems(7) by simp
  have c: "k + length ?vs + length ?rest \<le> unat (width ?t) * unat (height ?t)"
    unfolding dims using Cons.prems(8) unfolding sp by simp
  note ih = Cons.IH[OF a m b e c]
  have one: "cells_filled (fb_cells s) (fb_cells ?t) k ?vs"
    unfolding cd(1) using sf by simp
  have "cells_filled (fb_cells s)
      (fb_cells (fold (\<lambda>b s. chip_spi_done s (fst b) (snd b)) batches ?t)) k (?vs @ ?rest)"
    by (rule cells_filled_append[OF one ih])
  then show ?case unfolding sp by simp
qed

text \<open>The cells after a whole frame, in terms of \<open>rgb565_to_rgba\<close>.\<close>

lemma frame_cells:
  assumes "column_start s = 0" "column_end s = width s - 1"
    and "page_start s = 0" "page_end s = height s - 1"
    and "active_column s = 0" "active_page s = 0" "scanning_direction s = 0"
    and "mode s = MODE_DATA" "ram_write s"
    and "4 * (unat (width s) * unat (height s)) \<le> 2 ^ 32"
    and "\<forall>b\<in>set batches. even (length (fst b))"
    and "length (concat (map fst batches)) = 2 * (unat (width s) * unat (height s))"
  shows "\<forall>i < unat (width s) * unat (height s).
           fb_cells (fold (\<lambda>b s. chip_spi_done s (fst b) (snd b)) batches s) (4 * i) =
             rgb565_to_rgba (sample (concat (map fst batches)) i)"
proof (intro allI impI)
  fix i assume i: "i < unat (width s) * unat (height s)"
  let ?buf = "concat (map fst batches)"
  have W: "0 < unat (width s)" and H: "0 < unat (height s)"
    using i by (auto intro: Nat.gr0I)
  have fp: "frame_pos s 0"
    by (simp add: frame_pos_def assms(1-7))
  have len: "length (samples ?buf) = unat (width s) * unat (height s)"
    by (simp add: length_samples assms(12))
  have le: "0 + length (samples ?buf) \<le> unat (width s) * unat (height s)"
    using len by simp
  note bf = batches_fill[OF fp assms(8,9) W H assms(10,11) le]
  have il: "i < length (samples ?buf)" using i len by simp
  have "fb_cells (fold (\<lambda>b s. chip_spi_done s (fst b) (snd b)) batches s) (4 * (0 + i)) =
      rgb565_to_rgba (samples ?buf ! i)"
    using bf il unfolding cells_filled_def by blast
  moreover have "samples ?buf ! i = sample ?buf i"
    using il by (intro samples_nth) (simp add: length_samples)
  ultimately show "fb_cells (fold (\<lambda>b s. chip_spi_done s (fst b) (snd b)) batches s) (4 * i) =
             rgb565_to_rgba (sample ?buf i)"
    by simp
qed


text \<open>The conversion as arithmetic: \<open>rgb565_to_rgba\<close> computes the colour the
  specification describes, and a sample is its two bytes, high byte first.\<close>

lemma or_shift_add:
  fixes a b :: nat
  assumes "b < 2 ^ n"
  shows "push_bit n a OR b = a * 2 ^ n + b"
proof -
  have b: "take_bit n b = b" using assms by (simp add: take_bit_nat_eq_self)
  have "push_bit n a + b = push_bit n a OR b"
  proof (rule disjunctive_add)
    fix m
    show "\<not> bit (push_bit n a) m \<or> \<not> bit b m"
    proof (cases "m < n")
      case True
      then show ?thesis by (simp add: bit_push_bit_iff)
    next
      case False
      then have "\<not> bit (take_bit n b) m" by (simp add: bit_take_bit_iff)
      then show ?thesis unfolding b by simp
    qed
  qed
  then show ?thesis by (simp add: push_bit_eq_mult)
qed

lemma unat_or: "unat ((v :: 'a::len word) OR w) = unat v OR unat w"
  by (rule unsigned_or_eq)

lemma unat_push_small:
  fixes w :: "'a::len word"
  assumes "unat w * 2 ^ n < 2 ^ LENGTH('a)"
  shows "unat (push_bit n w) = unat w * 2 ^ n"
proof -
  have "unat (push_bit n w) = take_bit LENGTH('a) (push_bit n (unat w))"
    by (rule unsigned_push_bit_eq)
  also have "\<dots> = push_bit n (unat w)"
    using assms by (simp add: take_bit_nat_eq_self push_bit_eq_mult)
  finally show ?thesis by (simp add: push_bit_eq_mult)
qed

lemma unat_and_mask5: "unat ((w :: u32) AND 0x1f) = unat w mod 32"
proof -
  have "(0x1f :: u32) = mask 5" by (simp add: mask_eq_exp_minus_1)
  then have "w AND 0x1f = take_bit 5 w" by (simp only: take_bit_eq_mask)
  then have "unat (w AND 0x1f) = take_bit 5 (unat w)" by (simp only: unsigned_take_bit_eq)
  then show ?thesis by (simp only: take_bit_eq_mod) simp
qed

lemma unat_and_mask6: "unat ((w :: u32) AND 0x3f) = unat w mod 64"
proof -
  have "(0x3f :: u32) = mask 6" by (simp add: mask_eq_exp_minus_1)
  then have "w AND 0x3f = take_bit 6 w" by (simp only: take_bit_eq_mask)
  then have "unat (w AND 0x3f) = take_bit 6 (unat w)" by (simp only: unsigned_take_bit_eq)
  then show ?thesis by (simp only: take_bit_eq_mod) simp
qed

lemma unat_ucast_up:
  assumes "LENGTH('a::len) \<le> LENGTH('b::len)"
  shows "unat (ucast (v :: 'a word) :: 'b word) = unat v"
proof -
  have "unat (ucast v :: 'b word) = take_bit LENGTH('b) (unat v)"
    by (rule unsigned_ucast_eq)
  moreover have "unat v < 2 ^ LENGTH('a)" by simp
  moreover have "(2::nat) ^ LENGTH('a) \<le> 2 ^ LENGTH('b)"
    using assms by (simp add: power_increasing)
  ultimately have "unat v < 2 ^ LENGTH('b)" by linarith
  then show ?thesis
    using \<open>unat (ucast v :: 'b word) = take_bit LENGTH('b) (unat v)\<close>
    by (simp add: take_bit_nat_eq_self)
qed

lemma unat_drop: "unat (drop_bit n (w :: 'a::len word)) = unat w div 2 ^ n"
proof -
  have "unat (drop_bit n w) = drop_bit n (unat w)" by (rule unat_drop_bit_eq)
  also have "\<dots> = unat w div 2 ^ n" by (rule drop_bit_eq_div)
  finally show ?thesis .
qed

lemma unat_be16:
  "unat (push_bit 8 (ucast (hi :: u8)) OR ucast (lo :: u8) :: u16) = 256 * unat hi + unat lo"
proof -
  have h: "unat (ucast hi :: u16) = unat hi" and l: "unat (ucast lo :: u16) = unat lo"
    by (simp_all add: unat_ucast_up)
  have hl: "unat hi < 256" and ll: "unat lo < 256"
    using unsigned_less[of hi] unsigned_less[of lo] by simp_all
  have "unat (push_bit 8 (ucast hi :: u16)) = unat hi * 2 ^ 8"
    using hl by (intro unat_push_small[of "ucast hi :: u16" 8, unfolded h]) simp
  then have "unat (push_bit 8 (ucast hi) OR ucast lo :: u16) = push_bit 8 (unat hi) OR unat lo"
    unfolding unat_or l by (simp add: push_bit_eq_mult)
  also have "\<dots> = unat hi * 2 ^ 8 + unat lo"
    using ll by (intro or_shift_add) simp
  finally show ?thesis by simp
qed

lemma unat_sample:
  "unat (sample buf i) = 256 * unat (buf ! (2 * i)) + unat (buf ! (2 * i + 1))"
  unfolding sample_def by (rule unat_be16)

lemma rgb565_to_rgba_spec:
  "unat (rgb565_to_rgba v) = spec_rgb565_to_argb (unat v)"
proof -
  define r5 :: u32 where "r5 = ucast (drop_bit 11 v) AND 0x1f"
  define g6 :: u32 where "g6 = ucast (drop_bit 5 v) AND 0x3f"
  define b5 :: u32 where "b5 = ucast v AND 0x1f"
  define r8 :: u32 where "r8 = push_bit 3 r5 OR drop_bit 2 r5"
  define g8 :: u32 where "g8 = push_bit 2 g6 OR drop_bit 4 g6"
  define b8 :: u32 where "b8 = push_bit 3 b5 OR drop_bit 2 b5"
  define R5 where "R5 = unat v div 2048 mod 32"
  define G6 where "G6 = unat v div 32 mod 64"
  define B5 where "B5 = unat v mod 32"
  have up: "unat (ucast w :: u32) = unat w" for w :: u16
    by (simp add: unat_ucast_up)
  have ur5: "unat r5 = R5"
    unfolding r5_def R5_def unat_and_mask5 up unat_drop by simp
  have ug6: "unat g6 = G6"
    unfolding g6_def G6_def unat_and_mask6 up unat_drop by simp
  have ub5: "unat b5 = B5"
    unfolding b5_def B5_def unat_and_mask5 up by simp
  have R5: "R5 < 32" and G6: "G6 < 64" and B5: "B5 < 32"
    by (simp_all add: R5_def G6_def B5_def)
  have ur8: "unat r8 = R5 * 8 + R5 div 4"
  proof -
    have "unat (push_bit 3 r5) = R5 * 2 ^ 3"
      using R5 by (intro unat_push_small[of r5 3, unfolded ur5]) simp
    then have "unat r8 = push_bit 3 R5 OR (R5 div 4)"
      unfolding r8_def unat_or unat_drop ur5 by (simp add: push_bit_eq_mult)
    also have "\<dots> = R5 * 2 ^ 3 + R5 div 4"
      using R5 by (intro or_shift_add) simp
    finally show ?thesis by simp
  qed
  have ug8: "unat g8 = G6 * 4 + G6 div 16"
  proof -
    have "unat (push_bit 2 g6) = G6 * 2 ^ 2"
      using G6 by (intro unat_push_small[of g6 2, unfolded ug6]) simp
    then have "unat g8 = push_bit 2 G6 OR (G6 div 16)"
      unfolding g8_def unat_or unat_drop ug6 by (simp add: push_bit_eq_mult)
    also have "\<dots> = G6 * 2 ^ 2 + G6 div 16"
      using G6 by (intro or_shift_add) simp
    finally show ?thesis by simp
  qed
  have ub8: "unat b8 = B5 * 8 + B5 div 4"
  proof -
    have "unat (push_bit 3 b5) = B5 * 2 ^ 3"
      using B5 by (intro unat_push_small[of b5 3, unfolded ub5]) simp
    then have "unat b8 = push_bit 3 B5 OR (B5 div 4)"
      unfolding b8_def unat_or unat_drop ub5 by (simp add: push_bit_eq_mult)
    also have "\<dots> = B5 * 2 ^ 3 + B5 div 4"
      using B5 by (intro or_shift_add) simp
    finally show ?thesis by simp
  qed
  define R8 where "R8 = R5 * 8 + R5 div 4"
  define G8 where "G8 = G6 * 4 + G6 div 16"
  define B8 where "B8 = B5 * 8 + B5 div 4"
  have R8: "R8 < 256" and G8: "G8 < 256" and B8: "B8 < 256"
    using R5 G6 B5 unfolding R8_def G8_def B8_def by linarith+
  have p16: "unat (push_bit 16 r8) = push_bit 16 R8"
    using R8 unat_push_small[of r8 16] unfolding ur8 R8_def[symmetric]
    by (simp add: push_bit_eq_mult)
  have p8: "unat (push_bit 8 g8) = push_bit 8 G8"
    using G8 unat_push_small[of g8 8] unfolding ug8 G8_def[symmetric]
    by (simp add: push_bit_eq_mult)
  have a: "unat (0xff000000 :: u32) = push_bit 24 255"
    by (simp add: push_bit_eq_mult)
  have x: "push_bit 8 G8 OR B8 = G8 * 2 ^ 8 + B8"
    using B8 by (intro or_shift_add) simp
  have xl: "G8 * 2 ^ 8 + B8 < 2 ^ 16" using G8 B8 by simp
  have y: "push_bit 16 R8 OR (G8 * 2 ^ 8 + B8) = R8 * 2 ^ 16 + (G8 * 2 ^ 8 + B8)"
    using xl by (rule or_shift_add)
  have yl: "R8 * 2 ^ 16 + (G8 * 2 ^ 8 + B8) < 2 ^ 24" using R8 G8 B8 by simp
  have z: "push_bit 24 255 OR (R8 * 2 ^ 16 + (G8 * 2 ^ 8 + B8)) =
      255 * 2 ^ 24 + (R8 * 2 ^ 16 + (G8 * 2 ^ 8 + B8))"
    using yl by (rule or_shift_add)
  have e: "rgb565_to_rgba v = 0xff000000 OR push_bit 16 r8 OR push_bit 8 g8 OR b8"
    unfolding rgb565_to_rgba_def Let_def r8_def g8_def b8_def r5_def g6_def b5_def ..
  have ub8': "unat b8 = B8" unfolding ub8 B8_def ..
  have "unat (rgb565_to_rgba v) =
      unat (0xff000000 :: u32) OR unat (push_bit 16 r8) OR unat (push_bit 8 g8) OR unat b8"
    unfolding e by (simp only: unat_or)
  also have "\<dots> = push_bit 24 255 OR push_bit 16 R8 OR push_bit 8 G8 OR B8"
    unfolding p16 p8 a ub8' ..
  also have "\<dots> = 255 * 2 ^ 24 + (R8 * 2 ^ 16 + (G8 * 2 ^ 8 + B8))"
    unfolding x y z ..
  finally show ?thesis
    unfolding spec_rgb565_to_argb_def Let_def R8_def G8_def B8_def R5_def G6_def B5_def
    by simp
qed

text \<open>C1. Let the window be the full framebuffer of a \<open>W x H\<close> panel (whose byte
  size \<open>4 * W * H\<close> fits the 32-bit offset range), the cursor at its start, the scanning
  direction 0, and the device armed in data mode. Feed \<open>W * H\<close> big-endian 16-bit
  samples through \<open>chip_spi_done\<close>, in any number of batches of whole samples. Then for
  every \<open>i < W * H\<close> cell \<open>i\<close> (byte offset \<open>4 * i\<close>) holds the conversion of the
  \<open>i\<close>-th sample \<open>v = 256 * hi + lo\<close>: with \<open>r5\<close>, \<open>g6\<close>, \<open>b5\<close> the 5/6/5-bit
  channels of \<open>v\<close>, the cell is \<open>0xFF\<close> alpha, then \<open>r5 << 3 | r5 >> 2\<close>,
  \<open>g6 << 2 | g6 >> 4\<close> and \<open>b5 << 3 | b5 >> 2\<close>.\<close>

theorem full_frame_round_trip:
  assumes "column_start s = 0" "column_end s = width s - 1"
    and "page_start s = 0" "page_end s = height s - 1"
    and "active_column s = 0" "active_page s = 0" "scanning_direction s = 0"
    and "mode s = MODE_DATA" "ram_write s"
    and "4 * (unat (width s) * unat (height s)) \<le> 2 ^ 32"
    and "\<forall>b\<in>set batches. even (length (fst b))"
    and "length (concat (map fst batches)) = 2 * (unat (width s) * unat (height s))"
  shows "\<forall>i < unat (width s) * unat (height s).
           fb_cells (fold (\<lambda>b s. chip_spi_done s (fst b) (snd b)) batches s) (4 * i) =
             rgb565_to_rgba (sample (concat (map fst batches)) i) \<and>
           unat (fb_cells (fold (\<lambda>b s. chip_spi_done s (fst b) (snd b)) batches s) (4 * i)) =
             (let v = 256 * unat (concat (map fst batches) ! (2 * i)) +
                      unat (concat (map fst batches) ! (2 * i + 1));
                  r5 = v div 2048 mod 32; g6 = v div 32 mod 64; b5 = v mod 32;
                  r8 = r5 * 8 + r5 div 4;
                  g8 = g6 * 4 + g6 div 16;
                  b8 = b5 * 8 + b5 div 4
              in 255 * 2 ^ 24 + r8 * 2 ^ 16 + g8 * 2 ^ 8 + b8)"
proof (intro allI impI)
  fix i assume i: "i < unat (width s) * unat (height s)"
  let ?buf = "concat (map fst batches)"
  let ?cell = "fb_cells (fold (\<lambda>b s. chip_spi_done s (fst b) (snd b)) batches s) (4 * i)"
  have c: "?cell = rgb565_to_rgba (sample ?buf i)"
    using frame_cells[OF assms] i by blast
  have "unat ?cell = spec_rgb565_to_argb (256 * unat (?buf ! (2 * i)) + unat (?buf ! (2 * i + 1)))"
    unfolding c rgb565_to_rgba_spec unat_sample ..
  then show "?cell = rgb565_to_rgba (sample ?buf i) \<and>
      unat ?cell =
        (let v = 256 * unat (?buf ! (2 * i)) + unat (?buf ! (2 * i + 1));
             r5 = v div 2048 mod 32; g6 = v div 32 mod 64; b5 = v mod 32;
             r8 = r5 * 8 + r5 div 4;
             g8 = g6 * 4 + g6 div 16;
             b8 = b5 * 8 + b5 div 4
         in 255 * 2 ^ 24 + r8 * 2 ^ 16 + g8 * 2 ^ 8 + b8)"
    using c unfolding spec_rgb565_to_argb_def by (simp add: Let_def)
qed

lemma tiny_writing_fields:
  "width tiny_writing = 2" "height tiny_writing = 2" "scanning_direction tiny_writing = 0"
  "active_column tiny_writing = 0" "active_page tiny_writing = 0"
  "column_start tiny_writing = 0" "column_end tiny_writing = 1"
  "page_start tiny_writing = 0" "page_end tiny_writing = 1"
  "mode tiny_writing = MODE_DATA" "ram_write tiny_writing = True"
  by (simp_all add: tiny_writing_def tiny_chip_def chip_pin_change_def chip_spi_done_def
      run_defs)

theorem full_frame_round_trip_witness:
  "column_start tiny_writing = 0 \<and> column_end tiny_writing = width tiny_writing - 1 \<and>
   page_start tiny_writing = 0 \<and> page_end tiny_writing = height tiny_writing - 1 \<and>
   active_column tiny_writing = 0 \<and> active_page tiny_writing = 0 \<and>
   scanning_direction tiny_writing = 0 \<and> mode tiny_writing = MODE_DATA \<and>
   ram_write tiny_writing \<and>
   unat (fb_cells (fold (\<lambda>b s. chip_spi_done s (fst b) (snd b))
      [([0x12, 0x34, 0xAB, 0xCD], LOW), ([0x84, 0x10, 0x08, 0x21], LOW)] tiny_writing) 0)
     = 0xFF1045A5 \<and>
   unat (fb_cells (fold (\<lambda>b s. chip_spi_done s (fst b) (snd b))
      [([0x12, 0x34, 0xAB, 0xCD], LOW), ([0x84, 0x10, 0x08, 0x21], LOW)] tiny_writing) 4)
     = 0xFFAD796B \<and>
   unat (fb_cells (fold (\<lambda>b s. chip_spi_done s (fst b) (snd b))
      [([0x12, 0x34, 0xAB, 0xCD], LOW), ([0x84, 0x10, 0x08, 0x21], LOW)] tiny_writing) 8)
     = 0xFF848284 \<and>
   unat (fb_cells (fold (\<lambda>b s. chip_spi_done s (fst b) (snd b))
      [([0x12, 0x34, 0xAB, 0xCD], LOW), ([0x84, 0x10, 0x08, 0x21], LOW)] tiny_writing) 12)
     = 0xFF080408"
proof -
  let ?bs = "[([0x12, 0x34, 0xAB, 0xCD], LOW), ([0x84, 0x10, 0x08, 0x21], LOW)]
     :: (u8 list \<times> u32) list"
  have h: "column_start tiny_writing = 0" "column_end tiny_writing = width tiny_writing - 1"
    "page_start tiny_writing = 0" "page_end tiny_writing = height tiny_writing - 1"
    "active_column tiny_writing = 0" "active_page tiny_writing = 0"
    "scanning_direction tiny_writing = 0" "mode tiny_writing = MODE_DATA"
    "ram_write tiny_writing"
    "4 * (unat (width tiny_writing) * unat (height tiny_writing)) \<le> 2 ^ 32"
    "\<forall>b\<in>set ?bs. even (length (fst b))"
    "length (concat (map fst ?bs)) = 2 * (unat (width tiny_writing) * unat (height tiny_writing))"
    by (simp_all add: tiny_writing_fields)
  have n: "unat (width tiny_writing) * unat (height tiny_writing) = 4"
    by (simp add: tiny_writing_fields)
  note t = full_frame_round_trip[OF h, unfolded n, rule_format, THEN conjunct2]
  have c0: "unat (fb_cells (fold (\<lambda>b s. chip_spi_done s (fst b) (snd b)) ?bs tiny_writing) 0)
      = 0xFF1045A5"
    using t[of 0] by (simp add: Let_def)
  have c1: "unat (fb_cells (fold (\<lambda>b s. chip_spi_done s (fst b) (snd b)) ?bs tiny_writing) 4)
      = 0xFFAD796B"
    using t[of 1] by (simp add: Let_def)
  have c2: "unat (fb_cells (fold (\<lambda>b s. chip_spi_done s (fst b) (snd b)) ?bs tiny_writing) 8)
      = 0xFF848284"
    using t[of 2] by (simp add: Let_def)
  have c3: "unat (fb_cells (fold (\<lambda>b s. chip_spi_done s (fst b) (snd b)) ?bs tiny_writing) 12)
      = 0xFF080408"
    using t[of 3] by (simp add: Let_def)
  show ?thesis
    using h(1-9) c0 c1 c2 c3 by (intro conjI)
qed

end
